theory Spec2Isabelle
  imports Main "HOL-Library.Word"
begin

section \<open>Errors\<close>

text \<open>
  The exceptions of the query language. \<open>writes.cc\<close> raises and catches two classes:
  \<open>exc_t\<close>, which carries a classification, a message, a backtrace and a count of
  dummy frames, and \<open>datum_exc_t\<close>, which carries a classification and a message only.
  Every \<open>throw\<close>, \<open>rfail\<close>, \<open>rcheck\<close>, \<open>r_sanity_check\<close> and \<open>rassert\<close> of the source is
  an \<open>Inl\<close> branch of the model.
\<close>

type_synonym backtrace_id_t = nat

datatype base_exc_type_t = LOGIC | INTERNAL | RESOURCE | NON_EXISTENCE | OP_FAILED

datatype exn =
    Exc_t base_exc_type_t string backtrace_id_t nat
  | Datum_exc_t base_exc_type_t string

fun get_type :: "exn \<Rightarrow> base_exc_type_t" where
  "get_type (Exc_t t m bt fr) = t"
| "get_type (Datum_exc_t t m) = t"

fun what :: "exn \<Rightarrow> string" where
  "what (Exc_t t m bt fr) = m"
| "what (Datum_exc_t t m) = m"

text \<open>\<open>r_sanity_check(false)\<close>: an internal error of class \<open>exc_t\<close>.\<close>

definition sanity_check_failed :: "backtrace_id_t \<Rightarrow> exn" where
  "sanity_check_failed bt = Exc_t INTERNAL ''Sanity check failed'' bt 0"

section \<open>Documents\<close>

text \<open>
  Modelled from the spec: the document value type \<open>datum_t\<close>, its field access and its
  merge are declared outside \<open>writes.cc\<close>. A document is a structurally typed value
  (object, array or scalar). An object is a list of fields; \<open>get_field\<close> reads the
  first binding of a key, the builder never binds a key twice. Numbers are the
  integral counts the write path stores in them. A \<open>datum_t\<close> that holds nothing
  (\<open>has()\<close> is false) is \<open>None\<close>.
\<close>

datatype datum_t =
    R_NULL
  | R_BOOL bool
  | R_NUM int
  | R_STR string
  | R_ARRAY "datum_t list"
  | R_OBJECT "(string \<times> datum_t) list"

definition type_error :: "string \<Rightarrow> exn" where
  "type_error expected = Datum_exc_t LOGIC (''Expected type '' @ expected)"

text \<open>\<open>get_field(key, NOTHROW)\<close>: only an object has fields; a missing field is \<open>None\<close>.\<close>

fun get_field_nothrow :: "datum_t \<Rightarrow> string \<Rightarrow> exn + datum_t option" where
  "get_field_nothrow (R_OBJECT fs) key = Inr (map_of fs key)"
| "get_field_nothrow d key = Inl (type_error ''OBJECT'')"

text \<open>\<open>get_field(key)\<close>: a missing field raises.\<close>

fun get_field :: "datum_t \<Rightarrow> string \<Rightarrow> exn + datum_t" where
  "get_field (R_OBJECT fs) key =
     (case map_of fs key of
        None \<Rightarrow> Inl (Datum_exc_t NON_EXISTENCE (''No attribute `'' @ key @ ''` in object''))
      | Some v \<Rightarrow> Inr v)"
| "get_field d key = Inl (type_error ''OBJECT'')"

text \<open>
  Modelled from the spec: \<open>as_bool\<close> of a document. The spec fixes it on the booleans
  only; of the other values only null counts as false here. No property below
  depends on that choice.
\<close>

fun datum_as_bool :: "datum_t \<Rightarrow> bool" where
  "datum_as_bool (R_BOOL b) = b"
| "datum_as_bool R_NULL = False"
| "datum_as_bool d = True"

subsection \<open>Object builder\<close>

text \<open>
  Modelled from the spec: \<open>datum_object_builder_t\<close>. \<open>add\<close> binds a key that is not yet
  bound and reports whether the key was already there (a conflict); \<open>overwrite\<close>
  replaces the binding in place.
\<close>

type_synonym datum_object_builder_t = "(string \<times> datum_t) list"

definition builder_add ::
  "datum_object_builder_t \<Rightarrow> string \<Rightarrow> datum_t \<Rightarrow> bool \<times> datum_object_builder_t" where
  "builder_add b key v =
     (case map_of b key of None \<Rightarrow> (False, b @ [(key, v)]) | Some old \<Rightarrow> (True, b))"

fun builder_overwrite ::
  "datum_object_builder_t \<Rightarrow> string \<Rightarrow> datum_t \<Rightarrow> datum_object_builder_t" where
  "builder_overwrite [] key v = [(key, v)]"
| "builder_overwrite ((k, old) # b) key v =
     (if k = key then (k, v) # b else (k, old) # builder_overwrite b key v)"

section \<open>Values and request options\<close>

text \<open>
  A \<open>val_t\<close> as the option parsers and \<open>foreach\<close> see it: it knows the backtrace of the
  term that produced it, and it either converts to a document or is of another kind
  (a table, a sequence, a function).
\<close>

datatype val_t = Val_datum backtrace_id_t datum_t | Val_other backtrace_id_t

fun val_bt :: "val_t \<Rightarrow> backtrace_id_t" where
  "val_bt (Val_datum bt d) = bt"
| "val_bt (Val_other bt) = bt"

text \<open>
  Modelled from the spec: the conversions of \<open>val_t\<close>. A failed conversion of the value
  itself is an \<open>exc_t\<close> at the value's backtrace; a failed conversion of its document is
  re-raised there as well.
\<close>

fun as_datum :: "val_t \<Rightarrow> exn + datum_t" where
  "as_datum (Val_datum bt d) = Inr d"
| "as_datum (Val_other bt) = Inl (Exc_t LOGIC ''Expected type DATUM'' bt 0)"

fun as_str :: "val_t \<Rightarrow> exn + string" where
  "as_str (Val_datum bt (R_STR s)) = Inr s"
| "as_str (Val_datum bt d) = Inl (Exc_t LOGIC ''Expected type STRING'' bt 0)"
| "as_str (Val_other bt) = Inl (Exc_t LOGIC ''Expected type DATUM'' bt 0)"

fun as_bool :: "val_t \<Rightarrow> exn + bool" where
  "as_bool (Val_datum bt d) = Inr (datum_as_bool d)"
| "as_bool (Val_other bt) = Inl (Exc_t LOGIC ''Expected type DATUM'' bt 0)"

datatype conflict_behavior_t = ERROR | REPLACE | UPDATE

datatype durability_requirement_t =
  DURABILITY_REQUIREMENT_DEFAULT | DURABILITY_REQUIREMENT_HARD | DURABILITY_REQUIREMENT_SOFT

datatype return_changes_t = NO | YES | ALWAYS

text \<open>The optional arguments of a term, already evaluated: \<open>args->optarg(env, key)\<close>.\<close>

type_synonym optargs_t = "string \<rightharpoonup> val_t"

definition parse_conflict_optarg :: "val_t option \<Rightarrow> exn + conflict_behavior_t" where
  "parse_conflict_optarg arg =
     (case arg of
        None \<Rightarrow> Inr ERROR
      | Some v \<Rightarrow>
          (case as_str v of
             Inl e \<Rightarrow> Inl e
           | Inr str \<Rightarrow>
               if str = ''error'' then Inr ERROR
               else if str = ''replace'' then Inr REPLACE
               else if str = ''update'' then Inr UPDATE
               else Inl (Exc_t LOGIC
                      (''Conflict option `'' @ str @ ''` unrecognized ''
                       @ ''(options are \"error\", \"replace\" and \"update\").'')
                      (val_bt v) 0)))"

definition parse_durability_optarg :: "val_t option \<Rightarrow> exn + durability_requirement_t" where
  "parse_durability_optarg arg =
     (case arg of
        None \<Rightarrow> Inr DURABILITY_REQUIREMENT_DEFAULT
      | Some v \<Rightarrow>
          (case as_str v of
             Inl e \<Rightarrow> Inl e
           | Inr str \<Rightarrow>
               if str = ''hard'' then Inr DURABILITY_REQUIREMENT_HARD
               else if str = ''soft'' then Inr DURABILITY_REQUIREMENT_SOFT
               else Inl (Exc_t LOGIC
                      (''Durability option `'' @ str @ ''` unrecognized ''
                       @ ''(options are \"hard\" and \"soft\").'')
                      (val_bt v) 0)))"

definition return_vals_msg :: string where
  "return_vals_msg =
     ''Error: encountered obsolete optarg `return_vals`.  Use `return_changes` instead.''"

definition parse_return_changes :: "optargs_t \<Rightarrow> backtrace_id_t \<Rightarrow> exn + return_changes_t" where
  "parse_return_changes optarg bt =
     (case optarg ''return_vals'' of
        Some rv \<Rightarrow> Inl (Exc_t LOGIC return_vals_msg bt 0)
      | None \<Rightarrow>
          (case optarg ''return_changes'' of
             Some v \<Rightarrow>
               (case as_datum v of
                  Inl e \<Rightarrow> Inl e
                | Inr d \<Rightarrow>
                    (case d of
                       R_STR s \<Rightarrow>
                         if s = ''always'' then Inr ALWAYS
                         else Inl (Exc_t LOGIC
                                (''Invalid return_changes value `'' @ s @ ''` ''
                                 @ ''(options are `true`, `false`, and `'' @ [CHR 39]
                                 @ ''always'' @ [CHR 39] @ ''`.)'')
                                bt 0)
                     | _ \<Rightarrow>
                         (case as_bool v of
                            Inl e \<Rightarrow> Inl e
                          | Inr b \<Rightarrow> Inr (if b then YES else NO))))
           | None \<Rightarrow> Inr NO))"

section \<open>Limits, statistics objects and merging\<close>

record configured_limits_t =
  array_size_limit :: nat

text \<open>
  The condition set \<open>std::set<std::string>\<close> that merges may add warning conditions
  to: a list without duplicates, so that its size is its length.
\<close>

type_synonym conditions_t = "string list"

type_synonym merge_resolver_t =
  "string \<Rightarrow> datum_t \<Rightarrow> datum_t \<Rightarrow> configured_limits_t \<Rightarrow> conditions_t
     \<Rightarrow> exn + (datum_t \<times> conditions_t)"

text \<open>
  Modelled from the spec: \<open>datum_t::merge\<close> with a resolver (merge at the leaf). The
  fields of the right object are visited in order; a field whose key the left object
  lacks is added, a field whose key collides is replaced by what the resolver
  returns. Only objects merge.
\<close>

fun merge_fields ::
  "datum_object_builder_t \<Rightarrow> (string \<times> datum_t) list \<Rightarrow> merge_resolver_t
     \<Rightarrow> configured_limits_t \<Rightarrow> conditions_t
     \<Rightarrow> exn + (datum_object_builder_t \<times> conditions_t)" where
  "merge_fields d [] f limits conditions = Inr (d, conditions)"
| "merge_fields d ((key, v) # rest) f limits conditions =
     (case map_of d key of
        None \<Rightarrow> merge_fields (snd (builder_add d key v)) rest f limits conditions
      | Some sub_lhs \<Rightarrow>
          (case f key sub_lhs v limits conditions of
             Inl e \<Rightarrow> Inl e
           | Inr (merged, conditions') \<Rightarrow>
               merge_fields (builder_overwrite d key merged) rest f limits conditions'))"

fun datum_merge ::
  "datum_t \<Rightarrow> datum_t \<Rightarrow> merge_resolver_t \<Rightarrow> configured_limits_t \<Rightarrow> conditions_t
     \<Rightarrow> exn + (datum_t \<times> conditions_t)" where
  "datum_merge (R_OBJECT l) (R_OBJECT r) f limits conditions =
     (case merge_fields l r f limits conditions of
        Inl e \<Rightarrow> Inl e
      | Inr (d, conditions') \<Rightarrow> Inr (R_OBJECT d, conditions'))"
| "datum_merge l r f limits conditions = Inl (type_error ''OBJECT'')"

text \<open>\<open>pure_merge\<close>: the resolver to use where no key can collide.\<close>

definition pure_merge :: merge_resolver_t where
  "pure_merge key l r limits conditions = Inl (sanity_check_failed 0)"

definition stats_keys :: "string list" where
  "stats_keys = [''inserted'', ''deleted'', ''skipped'', ''replaced'', ''unchanged'', ''errors'']"

definition new_stats_object :: datum_t where
  "new_stats_object =
     R_OBJECT (foldl (\<lambda>stats key. snd (builder_add stats key (R_NUM 0))) [] stats_keys)"

text \<open>
  Modelled from the spec: \<open>stats_merge\<close>, the resolver of statistics objects, is
  defined outside \<open>writes.cc\<close>. On each of the six counters the result is the sum; on
  \<open>generated_keys\<close> and \<open>changes\<close> it is the concatenation in call order; on
  \<open>warnings\<close> it is the union, a repeated warning kept once; a collision on any other
  key is an invariant violation.
\<close>

definition stats_merge :: merge_resolver_t where
  "stats_merge key l r limits conditions =
     (if key \<in> set stats_keys then
        (case (l, r) of
           (R_NUM a, R_NUM b) \<Rightarrow> Inr (R_NUM (a + b), conditions)
         | _ \<Rightarrow> Inl (type_error ''NUMBER''))
      else if key = ''generated_keys'' \<or> key = ''changes'' then
        (case (l, r) of
           (R_ARRAY a, R_ARRAY b) \<Rightarrow> Inr (R_ARRAY (a @ b), conditions)
         | _ \<Rightarrow> Inl (type_error ''ARRAY''))
      else if key = ''warnings'' then
        (case (l, r) of
           (R_ARRAY a, R_ARRAY b) \<Rightarrow> Inr (R_ARRAY (remdups (a @ b)), conditions)
         | _ \<Rightarrow> Inl (type_error ''ARRAY''))
      else Inl (sanity_check_failed 0))"

text \<open>
  Modelled from the spec: \<open>add_warning\<close> and \<open>add_warnings\<close> of the object builder.
  A warning is appended to the \<open>warnings\<close> sequence unless the same text is already
  there, and the conditions of a request are added one by one.
\<close>

definition add_warning ::
  "datum_object_builder_t \<Rightarrow> string \<Rightarrow> configured_limits_t \<Rightarrow> exn + datum_object_builder_t"
  where
  "add_warning obj msg limits =
     (case map_of obj ''warnings'' of
        None \<Rightarrow> Inr (obj @ [(''warnings'', R_ARRAY [R_STR msg])])
      | Some (R_ARRAY ws) \<Rightarrow>
          if R_STR msg \<in> set ws then Inr obj
          else Inr (builder_overwrite obj ''warnings'' (R_ARRAY (ws @ [R_STR msg])))
      | Some other \<Rightarrow> Inl (type_error ''ARRAY''))"

fun add_warnings ::
  "datum_object_builder_t \<Rightarrow> conditions_t \<Rightarrow> configured_limits_t
     \<Rightarrow> exn + datum_object_builder_t" where
  "add_warnings obj [] limits = Inr obj"
| "add_warnings obj (msg # msgs) limits =
     (case add_warning obj msg limits of
        Inl e \<Rightarrow> Inl e
      | Inr obj' \<Rightarrow> add_warnings obj' msgs limits)"

text \<open>\<open>datum_object_builder_t obj(stats)\<close>: a builder starts from an object.\<close>

fun builder_of :: "datum_t \<Rightarrow> exn + datum_object_builder_t" where
  "builder_of (R_OBJECT fs) = Inr fs"
| "builder_of d = Inl (type_error ''OBJECT'')"

text \<open>The \<open>%zu\<close> of \<open>strprintf\<close>: a size in decimal.\<close>

definition digit_char :: "nat \<Rightarrow> char" where
  "digit_char d = ''0123456789'' ! d"

fun show_nat :: "nat \<Rightarrow> string" where
  "show_nat n = (if n < 10 then [digit_char n] else show_nat (n div 10) @ [digit_char (n mod 10)])"

declare show_nat.simps [simp del]

section \<open>The table engine, functions and streams\<close>

text \<open>
  Modelled from the spec: the table engine and the function evaluator are outside
  \<open>writes.cc\<close>; the write path reaches them through the calls below, which are
  parameters of the model. The engine is a state \<open>'e\<close> that each call may change, and
  each call returns a document. A function of the query language may write as well,
  so calling it passes the engine through.
\<close>

record 'e func_t =
  is_deterministic :: bool
  call :: "'e \<Rightarrow> datum_t \<Rightarrow> (exn + val_t) \<times> 'e"

record 'e table_t =
  get_pkey :: string
  batched_insert ::
    "'e \<Rightarrow> datum_t list \<Rightarrow> bool list \<Rightarrow> conflict_behavior_t
       \<Rightarrow> durability_requirement_t \<Rightarrow> return_changes_t \<Rightarrow> datum_t \<times> 'e"
  batched_replace ::
    "'e \<Rightarrow> datum_t list \<Rightarrow> datum_t list \<Rightarrow> 'e func_t \<Rightarrow> bool
       \<Rightarrow> durability_requirement_t \<Rightarrow> return_changes_t \<Rightarrow> datum_t \<times> 'e"

record 'e single_selection_t =
  sel_get :: datum_t
  sel_replace ::
    "'e \<Rightarrow> 'e func_t \<Rightarrow> bool \<Rightarrow> durability_requirement_t \<Rightarrow> return_changes_t
       \<Rightarrow> datum_t \<times> 'e"

text \<open>
  Modelled from the spec: a document stream is the finite sequence of batches it has
  yet to yield; a pull returns the next batch, and the empty batch once the stream is
  exhausted. A transformation attached to the stream (here always the projection on
  one field) is applied to every document of a pulled batch.
\<close>

type_synonym datum_stream_t = "datum_t list list"

fun collect :: "('a \<Rightarrow> exn + 'b) \<Rightarrow> 'a list \<Rightarrow> exn + 'b list" where
  "collect g [] = Inr []"
| "collect g (x # xs) =
     (case g x of
        Inl e \<Rightarrow> Inl e
      | Inr y \<Rightarrow> (case collect g xs of Inl e \<Rightarrow> Inl e | Inr ys \<Rightarrow> Inr (y # ys)))"

fun apply_transformations :: "string list \<Rightarrow> datum_t list \<Rightarrow> exn + datum_t list" where
  "apply_transformations [] batch = Inr batch"
| "apply_transformations (field # ts) batch =
     (case collect (\<lambda>row. get_field row field) batch of
        Inl e \<Rightarrow> Inl e
      | Inr batch' \<Rightarrow> apply_transformations ts batch')"

definition next_batch ::
  "string list \<Rightarrow> datum_stream_t \<Rightarrow> (exn + datum_t list) \<times> datum_stream_t" where
  "next_batch ts ds =
     (case ds of
        [] \<Rightarrow> (Inr [], [])
      | batch # rest \<Rightarrow> (apply_transformations ts batch, rest))"

text \<open>The positional arguments of a term, already evaluated.\<close>

datatype 'e arg_t =
    Arg_datum backtrace_id_t datum_t
  | Arg_sequence backtrace_id_t datum_stream_t
  | Arg_func backtrace_id_t "'e func_t"
  | Arg_table backtrace_id_t "'e table_t"
  | Arg_single_selection backtrace_id_t "'e single_selection_t"
  | Arg_selection backtrace_id_t "'e table_t" datum_stream_t

fun arg_bt :: "'e arg_t \<Rightarrow> backtrace_id_t" where
  "arg_bt (Arg_datum bt d) = bt"
| "arg_bt (Arg_sequence bt ds) = bt"
| "arg_bt (Arg_func bt f) = bt"
| "arg_bt (Arg_table bt t) = bt"
| "arg_bt (Arg_single_selection bt sel) = bt"
| "arg_bt (Arg_selection bt t ds) = bt"

definition arg_type_error :: "'e arg_t \<Rightarrow> string \<Rightarrow> exn" where
  "arg_type_error v expected = Exc_t LOGIC (''Expected type '' @ expected) (arg_bt v) 0"

text \<open>
  Modelled from the spec: the conversions of positional arguments. A single selection
  converts to the document it selects; a literal array converts to a stream, cut into
  batches by the batching policy of the request; a literal document converts to the
  constant function, which is deterministic.
\<close>

fun is_convertible_DATUM :: "'e arg_t \<Rightarrow> bool" where
  "is_convertible_DATUM (Arg_datum bt d) = True"
| "is_convertible_DATUM (Arg_single_selection bt sel) = True"
| "is_convertible_DATUM v = False"

fun is_convertible_SINGLE_SELECTION :: "'e arg_t \<Rightarrow> bool" where
  "is_convertible_SINGLE_SELECTION (Arg_single_selection bt sel) = True"
| "is_convertible_SINGLE_SELECTION v = False"

fun arg_as_datum :: "'e arg_t \<Rightarrow> exn + datum_t" where
  "arg_as_datum (Arg_datum bt d) = Inr d"
| "arg_as_datum (Arg_single_selection bt sel) = Inr (sel_get sel)"
| "arg_as_datum v = Inl (arg_type_error v ''DATUM'')"

fun as_table :: "'e arg_t \<Rightarrow> exn + 'e table_t" where
  "as_table (Arg_table bt t) = Inr t"
| "as_table v = Inl (arg_type_error v ''TABLE'')"

fun as_seq :: "(datum_t list \<Rightarrow> datum_stream_t) \<Rightarrow> 'e arg_t \<Rightarrow> exn + datum_stream_t" where
  "as_seq batching (Arg_sequence bt ds) = Inr ds"
| "as_seq batching (Arg_selection bt t ds) = Inr ds"
| "as_seq batching (Arg_datum bt (R_ARRAY xs)) = Inr (batching xs)"
| "as_seq batching v = Inl (arg_type_error v ''SEQUENCE'')"

fun as_func :: "'e arg_t \<Rightarrow> exn + 'e func_t" where
  "as_func (Arg_func bt f) = Inr f"
| "as_func (Arg_datum bt d) =
     Inr \<lparr>is_deterministic = True, call = (\<lambda>e row. (Inr (Val_datum bt d), e))\<rparr>"
| "as_func v = Inl (arg_type_error v ''FUNCTION'')"

fun as_single_selection :: "'e arg_t \<Rightarrow> exn + 'e single_selection_t" where
  "as_single_selection (Arg_single_selection bt sel) = Inr sel"
| "as_single_selection v = Inl (arg_type_error v ''SINGLE_SELECTION'')"

fun as_selection :: "'e arg_t \<Rightarrow> exn + ('e table_t \<times> datum_stream_t)" where
  "as_selection (Arg_selection bt t ds) = Inr (t, ds)"
| "as_selection v = Inl (arg_type_error v ''SELECTION'')"

text \<open>
  Modelled from the spec: what a request can observe of its surroundings, each a
  parameter of the model: the limits, the source of fresh keys
  (\<open>uuid_to_str(generate_uuid())\<close>, its results numbered in the order they are drawn)
  and the batching policy.
\<close>

record env_t =
  limits :: configured_limits_t
  uuid_source :: "nat \<Rightarrow> string"
  batching :: "datum_t list \<Rightarrow> datum_stream_t"

text \<open>
  The calls a request makes on the engine, the stream and the function, in order.
  The log is what a recording stub would see.
\<close>

datatype event =
    E_next_batch
  | E_next
  | E_add_transformation string
  | E_batched_insert "datum_t list" "bool list" conflict_behavior_t
      durability_requirement_t return_changes_t
  | E_batched_replace "datum_t list" "datum_t list" bool
      durability_requirement_t return_changes_t
  | E_replace bool durability_requirement_t return_changes_t
  | E_call datum_t

record 'e world_t =
  engine :: 'e
  trace :: "event list"

definition log_event :: "event \<Rightarrow> 'e world_t \<Rightarrow> 'e world_t" where
  "log_event ev w = w\<lparr>trace := trace w @ [ev]\<rparr>"

section \<open>Insert\<close>

text \<open>
  The accumulators of one insert request that \<open>maybe_generate_key\<close> writes through its
  out-parameters, with the number of keys drawn from the key source so far. The skip
  count is a \<open>size_t\<close>, 64 bits wide, so \<open>+= 1\<close> wraps around.
\<close>

record keygen_t =
  generated_keys :: "string list"
  keys_skipped :: "64 word"
  uuids_drawn :: nat

text \<open>
  \<open>insert_term_t::maybe_generate_key\<close>. The result is the exception, or the document
  and the flag written to \<open>datum_out\<close> and \<open>pkey_was_autogenerated_out\<close>; the
  accumulators are returned in both cases. The only exception that can arise is the
  one of the field access, before anything is written: the sanity checks are proved
  below never to fail.
\<close>

definition maybe_generate_key ::
  "'e table_t \<Rightarrow> configured_limits_t \<Rightarrow> (nat \<Rightarrow> string) \<Rightarrow> keygen_t \<Rightarrow> datum_t
     \<Rightarrow> (exn + (datum_t \<times> bool)) \<times> keygen_t" where
  "maybe_generate_key tbl lim uuids kg datum =
     (case get_field_nothrow datum (get_pkey tbl) of
        Inl e \<Rightarrow> (Inl e, kg)
      | Inr (Some present) \<Rightarrow> (Inr (datum, False), kg)
      | Inr None \<Rightarrow>
          (let key = uuids (uuids_drawn kg);
               kg1 = kg\<lparr>uuids_drawn := Suc (uuids_drawn kg)\<rparr>;
               keyd = R_STR key;
               (conflict, d) = builder_add [] (get_pkey tbl) keyd
           in if conflict then (Inl (sanity_check_failed 0), kg1)
              else
                (case datum_merge datum (R_OBJECT d) pure_merge lim [] of
                   Inl e \<Rightarrow> (Inl e, kg1)
                 | Inr (datum', conditions) \<Rightarrow>
                     if length conditions \<noteq> 0 then (Inl (sanity_check_failed 0), kg1)
                     else
                       (Inr (datum', True),
                        if length (generated_keys kg1) < array_size_limit lim
                        then kg1\<lparr>generated_keys := generated_keys kg1 @ [key]\<rparr>
                        else kg1\<lparr>keys_skipped := keys_skipped kg1 + 1\<rparr>))))"

text \<open>
  The loop over one batch: an exception of the key generator is ignored, the document
  stays as it was and its flag stays \<open>false\<close>.
\<close>

fun generate_keys ::
  "'e table_t \<Rightarrow> configured_limits_t \<Rightarrow> (nat \<Rightarrow> string) \<Rightarrow> keygen_t \<Rightarrow> datum_t list
     \<Rightarrow> keygen_t \<times> datum_t list \<times> bool list" where
  "generate_keys tbl lim uuids kg [] = (kg, [], [])"
| "generate_keys tbl lim uuids kg (datum # datums) =
     (case maybe_generate_key tbl lim uuids kg datum of
        (Inl e, kg1) \<Rightarrow>
          (case generate_keys tbl lim uuids kg1 datums of
             (kg2, datums', flags) \<Rightarrow> (kg2, datum # datums', False # flags))
      | (Inr (datum', was_autogenerated), kg1) \<Rightarrow>
          (case generate_keys tbl lim uuids kg1 datums of
             (kg2, datums', flags) \<Rightarrow> (kg2, datum' # datums', was_autogenerated # flags)))"

text \<open>One call of \<open>batched_insert\<close> and the merge of its statistics into the total.\<close>

definition insert_batch ::
  "env_t \<Rightarrow> 'e table_t \<Rightarrow> conflict_behavior_t \<Rightarrow> durability_requirement_t
     \<Rightarrow> return_changes_t \<Rightarrow> datum_t list \<Rightarrow> datum_t \<times> conditions_t \<times> keygen_t
     \<Rightarrow> 'e world_t \<Rightarrow> (exn + (datum_t \<times> conditions_t \<times> keygen_t)) \<times> 'e world_t" where
  "insert_batch env t conflict_behavior durability return_changes datums acc w =
     (case acc of (stats, conditions, kg) \<Rightarrow>
        (case generate_keys t (limits env) (uuid_source env) kg datums of
           (kg', datums', pkey_was_autogenerated) \<Rightarrow>
             (case batched_insert t (engine w) datums' pkey_was_autogenerated
                     conflict_behavior durability return_changes of
                (replace_stats, engine') \<Rightarrow>
                  (let w' = log_event
                              (E_batched_insert datums' pkey_was_autogenerated
                                 conflict_behavior durability return_changes)
                              (w\<lparr>engine := engine'\<rparr>)
                   in case datum_merge stats replace_stats stats_merge (limits env) conditions of
                        Inl e \<Rightarrow> (Inl e, w')
                      | Inr (stats', conditions') \<Rightarrow> (Inr (stats', conditions', kg'), w')))))"

text \<open>The loop \<open>for (;;)\<close> over the batches of a stream; an empty batch ends it.\<close>

fun insert_loop ::
  "env_t \<Rightarrow> 'e table_t \<Rightarrow> conflict_behavior_t \<Rightarrow> durability_requirement_t
     \<Rightarrow> return_changes_t \<Rightarrow> datum_stream_t \<Rightarrow> datum_t \<times> conditions_t \<times> keygen_t
     \<Rightarrow> 'e world_t \<Rightarrow> (exn + (datum_t \<times> conditions_t \<times> keygen_t)) \<times> 'e world_t" where
  "insert_loop env t cb dur rc [] acc w = (Inr acc, log_event E_next_batch w)"
| "insert_loop env t cb dur rc (datums # rest) acc w =
     (if datums = [] then (Inr acc, log_event E_next_batch w)
      else
        (case insert_batch env t cb dur rc datums acc (log_event E_next_batch w) of
           (Inl e, w') \<Rightarrow> (Inl e, w')
         | (Inr acc', w') \<Rightarrow> insert_loop env t cb dur rc rest acc' w'))"

definition too_many_keys_msg :: "nat \<Rightarrow> nat \<Rightarrow> string" where
  "too_many_keys_msg n_all n_kept =
     ''Too many generated keys ('' @ show_nat n_all @ ''), array truncated to ''
     @ show_nat n_kept @ ''.''"

text \<open>
  The end of \<open>insert_term_t::eval_impl\<close>, up to \<open>add_warnings\<close>: the generated keys are
  folded into the total when there are any, and the conditions become warnings. The
  array of keys is built as it is; the spec puts no size check on it.
\<close>

definition insert_totals ::
  "configured_limits_t \<Rightarrow> datum_t \<times> conditions_t \<times> keygen_t
     \<Rightarrow> exn + datum_object_builder_t" where
  "insert_totals lim acc =
     (case acc of (stats, conditions, kg) \<Rightarrow>
        (case (if length (generated_keys kg) > 0
               then datum_merge stats
                      (R_OBJECT (snd (builder_add [] ''generated_keys''
                                        (R_ARRAY (map R_STR (generated_keys kg))))))
                      pure_merge lim conditions
               else Inr (stats, conditions)) of
           Inl e \<Rightarrow> Inl e
         | Inr (stats', conditions') \<Rightarrow>
             (case builder_of stats' of
                Inl e \<Rightarrow> Inl e
              | Inr obj \<Rightarrow> add_warnings obj conditions' lim)))"

text \<open>
  The last step: a non-zero skip count adds its warning, once for the request. The
  sum in the message is a sum of two \<open>size_t\<close>.
\<close>

definition insert_finish ::
  "configured_limits_t \<Rightarrow> datum_t \<times> conditions_t \<times> keygen_t \<Rightarrow> exn + datum_t" where
  "insert_finish lim acc =
     (case acc of (stats, conditions, kg) \<Rightarrow>
        (case insert_totals lim acc of
           Inl e \<Rightarrow> Inl e
         | Inr obj \<Rightarrow>
             (case (if keys_skipped kg > 0
                    then add_warning obj
                           (too_many_keys_msg
                              (unat (keys_skipped kg + of_nat (length (generated_keys kg))))
                              (length (generated_keys kg))) lim
                    else Inr obj) of
                Inl e \<Rightarrow> Inl e
              | Inr obj' \<Rightarrow> Inr (R_OBJECT obj'))))"

definition keygen_init :: keygen_t where
  "keygen_init = \<lparr>generated_keys = [], keys_skipped = 0, uuids_drawn = 0\<rparr>"

text \<open>
  The body of \<open>insert_term_t::eval_impl\<close> after the options are parsed: the single
  document, or else the stream.
\<close>

definition insert_source ::
  "env_t \<Rightarrow> 'e table_t \<Rightarrow> conflict_behavior_t \<Rightarrow> durability_requirement_t
     \<Rightarrow> return_changes_t \<Rightarrow> 'e arg_t \<Rightarrow> 'e world_t
     \<Rightarrow> (exn + (datum_t \<times> conditions_t \<times> keygen_t)) \<times> 'e world_t" where
  "insert_source env t cb dur rc v1 w =
     (let acc = (new_stats_object, [], keygen_init);
          single = (if is_convertible_DATUM v1
                    then (case arg_as_datum v1 of
                            Inr (R_OBJECT fs) \<Rightarrow> Some (R_OBJECT fs)
                          | _ \<Rightarrow> None)
                    else None)
      in case single of
           Some datum \<Rightarrow> insert_batch env t cb dur rc [datum] acc w
         | None \<Rightarrow>
             (case as_seq (batching env) v1 of
                Inl e \<Rightarrow> (Inl e, w)
              | Inr datum_stream \<Rightarrow> insert_loop env t cb dur rc datum_stream acc w))"

text \<open>\<open>insert_term_t::eval_impl\<close>.\<close>

definition insert_term_eval_impl ::
  "env_t \<Rightarrow> optargs_t \<Rightarrow> backtrace_id_t \<Rightarrow> 'e arg_t \<Rightarrow> 'e arg_t \<Rightarrow> 'e world_t
     \<Rightarrow> (exn + datum_t) \<times> 'e world_t" where
  "insert_term_eval_impl env optarg bt v0 v1 w =
     (case as_table v0 of
        Inl e \<Rightarrow> (Inl e, w)
      | Inr t \<Rightarrow>
     (case parse_return_changes optarg bt of
        Inl e \<Rightarrow> (Inl e, w)
      | Inr return_changes \<Rightarrow>
     (case parse_conflict_optarg (optarg ''conflict'') of
        Inl e \<Rightarrow> (Inl e, w)
      | Inr conflict_behavior \<Rightarrow>
     (case parse_durability_optarg (optarg ''durability'') of
        Inl e \<Rightarrow> (Inl e, w)
      | Inr durability_requirement \<Rightarrow>
     (case insert_source env t conflict_behavior durability_requirement return_changes v1 w of
        (Inl e, w') \<Rightarrow> (Inl e, w')
      | (Inr acc, w') \<Rightarrow> (insert_finish (limits env) acc, w'))))))"

section \<open>Replace\<close>

definition nondeterministic_msg :: string where
  "nondeterministic_msg =
     ''Could not prove argument deterministic.  Maybe you want to use the non_atomic flag?''"

text \<open>\<open>rassert\<close>: an assertion of debug builds; its failure is an error of the model.\<close>

definition assertion_failed :: exn where
  "assertion_failed = Exc_t INTERNAL ''Assertion failed'' 0 0"

text \<open>One call of \<open>batched_replace\<close> on a pulled batch.\<close>

definition replace_batch ::
  "env_t \<Rightarrow> 'e table_t \<Rightarrow> 'e func_t \<Rightarrow> bool \<Rightarrow> durability_requirement_t
     \<Rightarrow> return_changes_t \<Rightarrow> datum_t list \<Rightarrow> datum_t \<times> conditions_t
     \<Rightarrow> 'e world_t \<Rightarrow> (exn + (datum_t \<times> conditions_t)) \<times> 'e world_t" where
  "replace_batch env tbl f nondet_ok dur rc vals acc w =
     (case acc of (stats, conditions) \<Rightarrow>
        (case (if \<not> is_deterministic f
               then (case collect (\<lambda>val. get_field val (get_pkey tbl)) vals of
                       Inl e \<Rightarrow> Inl e
                     | Inr keys \<Rightarrow> Inr (Some keys))
               else Inr None) of
           Inl e \<Rightarrow> (Inl e, w)
         | Inr keys \<Rightarrow>
             (let ks = (case keys of Some k \<Rightarrow> k | None \<Rightarrow> vals)
              in case batched_replace tbl (engine w) vals ks f nondet_ok dur rc of
                   (replace_stats, engine') \<Rightarrow>
                     (let w' = log_event (E_batched_replace vals ks nondet_ok dur rc)
                                 (w\<lparr>engine := engine'\<rparr>)
                      in case datum_merge stats replace_stats stats_merge (limits env)
                                conditions of
                           Inl e \<Rightarrow> (Inl e, w')
                         | Inr acc' \<Rightarrow> (Inr acc', w')))))"

text \<open>
  The loop over the batches of the row set. \<open>ts\<close> are the transformations attached to
  the stream.
\<close>

fun replace_loop ::
  "env_t \<Rightarrow> 'e table_t \<Rightarrow> 'e func_t \<Rightarrow> bool \<Rightarrow> durability_requirement_t
     \<Rightarrow> return_changes_t \<Rightarrow> string list \<Rightarrow> datum_stream_t \<Rightarrow> datum_t \<times> conditions_t
     \<Rightarrow> 'e world_t \<Rightarrow> (exn + (datum_t \<times> conditions_t)) \<times> 'e world_t" where
  "replace_loop env tbl f nondet_ok dur rc ts [] acc w = (Inr acc, log_event E_next_batch w)"
| "replace_loop env tbl f nondet_ok dur rc ts (batch # rest) acc w =
     (case fst (next_batch ts (batch # rest)) of
        Inl e \<Rightarrow> (Inl e, log_event E_next_batch w)
      | Inr vals \<Rightarrow>
          if vals = [] then (Inr acc, log_event E_next_batch w)
          else
            (case replace_batch env tbl f nondet_ok dur rc vals acc
                    (log_event E_next_batch w) of
               (Inl e, w') \<Rightarrow> (Inl e, w')
             | (Inr acc', w') \<Rightarrow> replace_loop env tbl f nondet_ok dur rc ts rest acc' w'))"

text \<open>The end of \<open>replace\<close> and of \<open>foreach\<close>: the conditions become warnings.\<close>

definition finish_stats ::
  "configured_limits_t \<Rightarrow> datum_t \<times> conditions_t \<Rightarrow> exn + datum_t" where
  "finish_stats lim acc =
     (case acc of (stats, conditions) \<Rightarrow>
        (case builder_of stats of
           Inl e \<Rightarrow> Inl e
         | Inr obj \<Rightarrow>
             (case add_warnings obj conditions lim of
                Inl e \<Rightarrow> Inl e
              | Inr obj' \<Rightarrow> Inr (R_OBJECT obj'))))"

text \<open>
  The body of \<open>replace_term_t::eval_impl\<close> from the target on: the single selection, or
  else the row set with its stream.
\<close>

definition replace_target ::
  "env_t \<Rightarrow> 'e func_t \<Rightarrow> bool \<Rightarrow> durability_requirement_t \<Rightarrow> return_changes_t
     \<Rightarrow> 'e arg_t \<Rightarrow> 'e world_t \<Rightarrow> (exn + (datum_t \<times> conditions_t)) \<times> 'e world_t" where
  "replace_target env f nondet_ok dur rc v0 w =
     (let stats = new_stats_object; conditions = [] in
      if is_convertible_SINGLE_SELECTION v0 then
        (case as_single_selection v0 of
           Inl e \<Rightarrow> (Inl e, w)
         | Inr sel \<Rightarrow>
             (case sel_replace sel (engine w) f nondet_ok dur rc of
                (replace_stats, engine') \<Rightarrow>
                  (let w' = log_event (E_replace nondet_ok dur rc) (w\<lparr>engine := engine'\<rparr>)
                   in case datum_merge stats replace_stats stats_merge (limits env)
                             conditions of
                        Inl e \<Rightarrow> (Inl e, w')
                      | Inr acc \<Rightarrow> (Inr acc, w'))))
      else
        (case as_selection v0 of
           Inl e \<Rightarrow> (Inl e, w)
         | Inr (tbl, ds) \<Rightarrow>
             if is_deterministic f
             then replace_loop env tbl f nondet_ok dur rc [get_pkey tbl] ds
                    (stats, conditions) (log_event (E_add_transformation (get_pkey tbl)) w)
             else replace_loop env tbl f nondet_ok dur rc [] ds (stats, conditions) w))"

text \<open>
  \<open>replace_term_t::eval_impl\<close>. \<open>arg1_is_deterministic\<close> is
  \<open>args->arg_is_deterministic(1)\<close>, what the engine can prove of the second argument
  before evaluating it.
\<close>

definition replace_term_eval_impl ::
  "env_t \<Rightarrow> optargs_t \<Rightarrow> backtrace_id_t \<Rightarrow> bool \<Rightarrow> 'e arg_t \<Rightarrow> 'e arg_t \<Rightarrow> 'e world_t
     \<Rightarrow> (exn + datum_t) \<times> 'e world_t" where
  "replace_term_eval_impl env optarg bt arg1_is_deterministic v0 v1 w =
     (case (case optarg ''non_atomic'' of None \<Rightarrow> Inr False | Some v \<Rightarrow> as_bool v) of
        Inl e \<Rightarrow> (Inl e, w)
      | Inr nondet_ok \<Rightarrow>
     (case parse_return_changes optarg bt of
        Inl e \<Rightarrow> (Inl e, w)
      | Inr return_changes \<Rightarrow>
     (case parse_durability_optarg (optarg ''durability'') of
        Inl e \<Rightarrow> (Inl e, w)
      | Inr durability_requirement \<Rightarrow>
     if \<not> nondet_ok \<and> \<not> arg1_is_deterministic
     then (Inl (Exc_t LOGIC nondeterministic_msg bt 0), w)
     else
     (case as_func v1 of
        Inl e \<Rightarrow> (Inl e, w)
      | Inr f \<Rightarrow>
     if \<not> nondet_ok \<and> \<not> is_deterministic f then (Inl assertion_failed, w)
     else
     (case replace_target env f nondet_ok durability_requirement return_changes v0 w of
        (Inl e, w') \<Rightarrow> (Inl e, w')
      | (Inr acc, w') \<Rightarrow> (finish_stats (limits env) acc, w'))))))"

section \<open>Foreach\<close>

definition fail_msg :: string where
  "fail_msg = ''FOR_EACH expects one or more basic write queries.''"

text \<open>The rows \<open>ds->next\<close> yields one at a time, up to the first empty batch.\<close>

fun stream_rows :: "datum_stream_t \<Rightarrow> datum_t list" where
  "stream_rows [] = []"
| "stream_rows (batch # rest) = (if batch = [] then [] else batch @ stream_rows rest)"

text \<open>The merges of the elements of an array result, in order.\<close>

fun merge_each ::
  "datum_t list \<Rightarrow> configured_limits_t \<Rightarrow> datum_t \<times> conditions_t
     \<Rightarrow> exn + (datum_t \<times> conditions_t)" where
  "merge_each [] lim acc = Inr acc"
| "merge_each (d # ds) lim acc =
     (case datum_merge (fst acc) d stats_merge lim (snd acc) of
        Inl e \<Rightarrow> Inl e
      | Inr acc' \<Rightarrow> merge_each ds lim acc')"

text \<open>The body of the \<open>try\<close> block: interpreting the result of one call.\<close>

definition foreach_merge ::
  "val_t \<Rightarrow> configured_limits_t \<Rightarrow> datum_t \<times> conditions_t
     \<Rightarrow> exn + (datum_t \<times> conditions_t)" where
  "foreach_merge v lim acc =
     (case as_datum v of
        Inl e \<Rightarrow> Inl e
      | Inr d \<Rightarrow>
          (case d of
             R_OBJECT fs \<Rightarrow> datum_merge (fst acc) d stats_merge lim (snd acc)
           | R_ARRAY ds \<Rightarrow> merge_each ds lim acc
           | _ \<Rightarrow> Inl (type_error ''ARRAY'')))"

text \<open>The two \<open>catch\<close> clauses.\<close>

fun foreach_rethrow :: "val_t \<Rightarrow> exn \<Rightarrow> exn" where
  "foreach_rethrow v (Exc_t t m bt frames) = Exc_t t fail_msg bt frames"
| "foreach_rethrow v (Datum_exc_t t m) = Exc_t t (fail_msg @ ''  '' @ m) (val_bt v) 0"

text \<open>
  The loop body on the rows the stream yields: the call of the function is outside
  the \<open>try\<close> block, the interpretation of its result inside.
\<close>

fun foreach_rows ::
  "env_t \<Rightarrow> 'e func_t \<Rightarrow> datum_t list \<Rightarrow> datum_t \<times> conditions_t \<Rightarrow> 'e world_t
     \<Rightarrow> (exn + (datum_t \<times> conditions_t)) \<times> 'e world_t" where
  "foreach_rows env f [] acc w = (Inr acc, w)"
| "foreach_rows env f (row # rows) acc w =
     (case call f (engine w) row of
        (r, engine') \<Rightarrow>
          (let w' = log_event (E_call row) ((log_event E_next w)\<lparr>engine := engine'\<rparr>)
           in case r of
                Inl e \<Rightarrow> (Inl e, w')
              | Inr v \<Rightarrow>
                  (case foreach_merge v (limits env) acc of
                     Inl e \<Rightarrow> (Inl (foreach_rethrow v e), w')
                   | Inr acc' \<Rightarrow> foreach_rows env f rows acc' w')))"

text \<open>The \<open>while\<close> loop: the rows, then the pull that finds the stream exhausted.\<close>

definition foreach_loop ::
  "env_t \<Rightarrow> 'e func_t \<Rightarrow> datum_t list \<Rightarrow> datum_t \<times> conditions_t \<Rightarrow> 'e world_t
     \<Rightarrow> (exn + (datum_t \<times> conditions_t)) \<times> 'e world_t" where
  "foreach_loop env f rows acc w =
     (case foreach_rows env f rows acc w of
        (Inl e, w') \<Rightarrow> (Inl e, w')
      | (Inr acc', w') \<Rightarrow> (Inr acc', log_event E_next w'))"

text \<open>An error whose message starts with the fixed message of \<open>foreach\<close>.\<close>

definition carries_fail_msg :: "exn \<Rightarrow> bool" where
  "carries_fail_msg e = (take (length fail_msg) (what e) = fail_msg)"

text \<open>\<open>foreach_term_t::eval_impl\<close>.\<close>

definition foreach_term_eval_impl ::
  "env_t \<Rightarrow> 'e arg_t \<Rightarrow> 'e arg_t \<Rightarrow> 'e world_t \<Rightarrow> (exn + datum_t) \<times> 'e world_t" where
  "foreach_term_eval_impl env v0 v1 w =
     (case as_seq (batching env) v0 of
        Inl e \<Rightarrow> (Inl e, w)
      | Inr ds \<Rightarrow>
          (case as_func v1 of
             Inl e \<Rightarrow> (Inl e, w)
           | Inr f \<Rightarrow>
               (case foreach_loop env f (stream_rows ds) (R_OBJECT [], []) w of
                  (Inl e, w') \<Rightarrow> (Inl e, w')
                | (Inr acc, w') \<Rightarrow> (finish_stats (limits env) acc, w'))))"

text \<open>The warnings an object under construction carries.\<close>

definition warnings_of :: "datum_object_builder_t \<Rightarrow> datum_t list" where
  "warnings_of obj = (case map_of obj ''warnings'' of Some (R_ARRAY ws) \<Rightarrow> ws | _ \<Rightarrow> [])"

text \<open>
  The accumulators of the key generator after some keys were drawn: the collection
  holds the first keys of the source, up to the limit, and the skip count is the
  number of keys drawn beyond the limit, as a \<open>size_t\<close>.
\<close>

definition keygen_inv :: "configured_limits_t \<Rightarrow> (nat \<Rightarrow> string) \<Rightarrow> keygen_t \<Rightarrow> bool" where
  "keygen_inv lim uuids kg =
     (generated_keys kg = map uuids [0..<min (uuids_drawn kg) (array_size_limit lim)]
      \<and> keys_skipped kg = of_nat (uuids_drawn kg - array_size_limit lim))"

section \<open>What the log of a replace over a row set must contain\<close>





section \<open>What the log of an insert must contain\<close>

text \<open>A document the key generator has to give a key: an object without the field.\<close>

definition lacks_key :: "string \<Rightarrow> datum_t \<Rightarrow> bool" where
  "lacks_key pk d = (case d of R_OBJECT fs \<Rightarrow> map_of fs pk = None | _ \<Rightarrow> False)"

text \<open>
  A pulled document \<open>d\<close> against the document and flag handed to \<open>batched_insert\<close> for
  it: a document that lacks the key is handed over with exactly one more field, the
  primary key bound to a string, and flagged; any other document is handed over as it
  is, not flagged.
\<close>

definition keyed :: "string \<Rightarrow> datum_t \<Rightarrow> datum_t \<times> bool \<Rightarrow> bool" where
  "keyed pk d p =
     (case p of (d', flag) \<Rightarrow>
        if lacks_key pk d
        then flag \<and>
             (case d of
                R_OBJECT fs \<Rightarrow>
                  (case get_field d' pk of
                     Inr (R_STR key) \<Rightarrow> d' = R_OBJECT (fs @ [(pk, R_STR key)])
                   | _ \<Rightarrow> False)
              | _ \<Rightarrow> False)
        else \<not> flag \<and> d' = d)"

text \<open>The calls of \<open>batched_insert\<close> in a log, in order.\<close>

type_synonym insert_call_t =
  "datum_t list \<times> bool list \<times> conflict_behavior_t \<times> durability_requirement_t \<times> return_changes_t"

fun insert_calls :: "event list \<Rightarrow> insert_call_t list" where
  "insert_calls [] = []"
| "insert_calls (E_batched_insert docs flags cb dur rc # tr) =
     (docs, flags, cb, dur, rc) # insert_calls tr"
| "insert_calls (ev # tr) = insert_calls tr"

text \<open>A call that serves a pulled batch: one keyed document and one flag for each.\<close>

definition insert_call_of ::
  "string \<Rightarrow> conflict_behavior_t \<Rightarrow> durability_requirement_t \<Rightarrow> return_changes_t
     \<Rightarrow> datum_t list \<Rightarrow> insert_call_t \<Rightarrow> bool" where
  "insert_call_of pk cb dur rc batch c =
     (case c of (docs, flags, cb', dur', rc') \<Rightarrow>
        cb' = cb \<and> dur' = dur \<and> rc' = rc \<and> length flags = length docs
        \<and> list_all2 (keyed pk) batch (zip docs flags))"

text \<open>The replies of the engine to the calls of a log, from the engine as it was before.\<close>

fun insert_replies :: "'e table_t \<Rightarrow> 'e \<Rightarrow> insert_call_t list \<Rightarrow> datum_t list \<times> 'e" where
  "insert_replies t e [] = ([], e)"
| "insert_replies t e ((docs, flags, cb, dur, rc) # calls) =
     (case batched_insert t e docs flags cb dur rc of
        (reply, e') \<Rightarrow>
          (case insert_replies t e' calls of (replies, e'') \<Rightarrow> (reply # replies, e'')))"

text \<open>The keys found in the flagged documents of a call, and of all calls, in order.\<close>

fun doc_keys :: "string \<Rightarrow> (datum_t \<times> bool) list \<Rightarrow> string list" where
  "doc_keys pk [] = []"
| "doc_keys pk ((d, flag) # rest) =
     (if flag then (case get_field d pk of Inr (R_STR key) \<Rightarrow> [key] | _ \<Rightarrow> []) else [])
     @ doc_keys pk rest"

definition merged_keys :: "string \<Rightarrow> insert_call_t list \<Rightarrow> string list" where
  "merged_keys pk calls =
     concat (map (\<lambda>c. case c of (docs, flags, rest) \<Rightarrow> doc_keys pk (zip docs flags)) calls)"

text \<open>
  The batches an insert takes from its source: the single document, or else the
  batches of the stream up to the first empty one.
\<close>

definition insert_batches :: "env_t \<Rightarrow> 'e arg_t \<Rightarrow> datum_t list list" where
  "insert_batches env v1 =
     (case arg_as_datum v1 of
        Inr (R_OBJECT fs) \<Rightarrow> [[R_OBJECT fs]]
      | _ \<Rightarrow>
          (case as_seq (batching env) v1 of
             Inr ds \<Rightarrow> takeWhile (\<lambda>batch. batch \<noteq> []) ds
           | Inl e \<Rightarrow> []))"

section \<open>Statistics objects of the data model\<close>

text \<open>
  Modelled from the spec: a StatsObject maps each of the six counters to a
  non-negative count and may carry the sequences \<open>generated_keys\<close>, \<open>changes\<close> and
  \<open>warnings\<close>; it has no other field and no field twice.
\<close>

definition allowed_field :: "string \<Rightarrow> datum_t \<Rightarrow> bool" where
  "allowed_field k v =
     (if k \<in> set stats_keys then (case v of R_NUM n \<Rightarrow> 0 \<le> n | _ \<Rightarrow> False)
      else (k = ''generated_keys'' \<or> k = ''changes'' \<or> k = ''warnings'')
           \<and> (case v of R_ARRAY xs \<Rightarrow> True | _ \<Rightarrow> False))"

definition is_stats_object :: "datum_t \<Rightarrow> bool" where
  "is_stats_object d =
     (case d of
        R_OBJECT fs \<Rightarrow>
          distinct (map fst fs)
          \<and> list_all (\<lambda>k. map_of fs k \<noteq> None) stats_keys
          \<and> list_all (\<lambda>(k, v). allowed_field k v) fs
      | _ \<Rightarrow> False)"

text \<open>An object that has all six counters, each a number that is at least 0.\<close>

definition has_counters :: "datum_t \<Rightarrow> bool" where
  "has_counters d =
     (case d of
        R_OBJECT fs \<Rightarrow>
          list_all (\<lambda>k. case map_of fs k of Some (R_NUM n) \<Rightarrow> 0 \<le> n | _ \<Rightarrow> False) stats_keys
      | _ \<Rightarrow> False)"

text \<open>The same of a list of fields, as a statement about lookups.\<close>

definition counters_in :: "(string \<times> datum_t) list \<Rightarrow> bool" where
  "counters_in fs = (\<forall>k \<in> set stats_keys. \<exists>n. map_of fs k = Some (R_NUM n) \<and> 0 \<le> n)"

text \<open>The value of a counter of an object; 0 when the object has no such number.\<close>

definition counter_of :: "datum_t \<Rightarrow> string \<Rightarrow> int" where
  "counter_of d k = (case get_field d k of Inr (R_NUM n) \<Rightarrow> n | _ \<Rightarrow> 0)"

text \<open>A reply of the engine in which no counter is negative.\<close>

definition nonneg_counters :: "datum_t \<Rightarrow> bool" where
  "nonneg_counters d =
     (case d of
        R_OBJECT fs \<Rightarrow>
          list_all (\<lambda>(k, v). case v of R_NUM n \<Rightarrow> k \<in> set stats_keys \<longrightarrow> 0 \<le> n | _ \<Rightarrow> True) fs
      | _ \<Rightarrow> True)"

text \<open>The fields a lookup can find are all allowed.\<close>

definition allowed_map :: "(string \<times> datum_t) list \<Rightarrow> bool" where
  "allowed_map fs = (\<forall>k v. map_of fs k = Some v \<longrightarrow> allowed_field k v)"

section \<open>A recording stub of the table engine\<close>

text \<open>
  A table with primary key \<open>id\<close> whose engine counts the calls it has served and
  reports every document of a batch as inserted or replaced; a source of keys
  \<open>k0\<close>, \<open>k1\<close>, ...; a batching policy that yields a literal array as one batch.
\<close>

definition stub_stats :: "string \<Rightarrow> nat \<Rightarrow> datum_t" where
  "stub_stats counter n =
     R_OBJECT (map (\<lambda>k. (k, R_NUM (if k = counter then int n else 0))) stats_keys)"

definition stub_table :: "nat table_t" where
  "stub_table =
     \<lparr>get_pkey = ''id'',
      batched_insert = (\<lambda>e docs flags cb dur rc. (stub_stats ''inserted'' (length docs), Suc e)),
      batched_replace =
        (\<lambda>e docs keys f nondet_ok dur rc. (stub_stats ''replaced'' (length docs), Suc e))\<rparr>"

definition stub_selection :: "nat single_selection_t" where
  "stub_selection =
     \<lparr>sel_get = R_OBJECT [(''id'', R_NUM 1)],
      sel_replace = (\<lambda>e f nondet_ok dur rc. (stub_stats ''replaced'' 1, Suc e))\<rparr>"

definition stub_env :: "nat \<Rightarrow> env_t" where
  "stub_env n =
     \<lparr>limits = \<lparr>array_size_limit = n\<rparr>,
      uuid_source = (\<lambda>i. ''k'' @ show_nat i),
      batching = (\<lambda>xs. [xs])\<rparr>"

definition stub_world :: "nat world_t" where
  "stub_world = \<lparr>engine = 0, trace = []\<rparr>"

text \<open>
  Two functions for \<open>replace\<close>: one the engine cannot prove deterministic, one it can.
  Both return the row they are given.
\<close>

definition nondet_func :: "nat func_t" where
  "nondet_func = \<lparr>is_deterministic = False, call = (\<lambda>e row. (Inr (Val_datum 0 row), e))\<rparr>"

definition det_func :: "nat func_t" where
  "det_func = \<lparr>is_deterministic = True, call = (\<lambda>e row. (Inr (Val_datum 0 row), e))\<rparr>"

section \<open>What the log of a replace over a row set may contain\<close>



text \<open>A function whose evaluation fails on every row, as a write on a missing table does.\<close>

definition failing_func :: "nat func_t" where
  "failing_func =
     \<lparr>is_deterministic = True,
      call = (\<lambda>e row. (Inl (Exc_t OP_FAILED ''Table `test.t` does not exist.'' 4 0), e))\<rparr>"

text \<open>A function that returns a number, a table, or a write result, depending on the row.\<close>

definition mixed_func :: "nat func_t" where
  "mixed_func =
     \<lparr>is_deterministic = True,
      call = (\<lambda>e row. (Inr (case row of
                               R_NUM n \<Rightarrow> Val_datum 5 (R_NUM n)
                             | R_NULL \<Rightarrow> Val_other 6
                             | _ \<Rightarrow> Val_datum 5 (stub_stats ''inserted'' 1)), Suc e))\<rparr>"

section \<open>Properties\<close>

subsection \<open>Request options\<close>

lemma as_str_cases:
  "(\<exists>s. as_str v = Inr s) \<or> (\<exists>m. as_str v = Inl (Exc_t LOGIC m (val_bt v) 0))"
  by (cases v rule: as_str.cases) auto

text \<open>
  C8. Option validation. An absent \<open>conflict\<close> is \<open>ERROR\<close> and an absent \<open>durability\<close> is
  the default; the values \<open>error\<close>, \<open>replace\<close>, \<open>update\<close> and \<open>hard\<close>, \<open>soft\<close> are
  accepted, and any other value, a string or not, is rejected with a \<open>LOGIC\<close> error at
  the value. A \<open>return_changes\<close> string other than \<open>always\<close> is rejected with a \<open>LOGIC\<close>
  error, the booleans give \<open>YES\<close> and \<open>NO\<close>, and \<open>return_vals\<close>, whatever its value, is
  rejected with the fixed message.
\<close>

theorem option_validation:
  "(parse_conflict_optarg None = Inr ERROR
    \<and> (as_str v = Inr ''error'' \<longrightarrow> parse_conflict_optarg (Some v) = Inr ERROR)
    \<and> (as_str v = Inr ''replace'' \<longrightarrow> parse_conflict_optarg (Some v) = Inr REPLACE)
    \<and> (as_str v = Inr ''update'' \<longrightarrow> parse_conflict_optarg (Some v) = Inr UPDATE)
    \<and> (as_str v \<notin> {Inr ''error'', Inr ''replace'', Inr ''update''} \<longrightarrow>
         (\<exists>m. parse_conflict_optarg (Some v) = Inl (Exc_t LOGIC m (val_bt v) 0))))
   \<and> (parse_durability_optarg None = Inr DURABILITY_REQUIREMENT_DEFAULT
    \<and> (as_str v = Inr ''hard'' \<longrightarrow> parse_durability_optarg (Some v) = Inr DURABILITY_REQUIREMENT_HARD)
    \<and> (as_str v = Inr ''soft'' \<longrightarrow> parse_durability_optarg (Some v) = Inr DURABILITY_REQUIREMENT_SOFT)
    \<and> (as_str v \<notin> {Inr ''hard'', Inr ''soft''} \<longrightarrow>
         (\<exists>m. parse_durability_optarg (Some v) = Inl (Exc_t LOGIC m (val_bt v) 0))))
   \<and> (optarg ''return_vals'' = None \<longrightarrow>
         (optarg ''return_changes'' = None \<longrightarrow> parse_return_changes optarg bt = Inr NO)
       \<and> (optarg ''return_changes'' = Some (Val_datum b (R_STR ''always'')) \<longrightarrow>
            parse_return_changes optarg bt = Inr ALWAYS)
       \<and> (optarg ''return_changes'' = Some (Val_datum b (R_STR s)) \<and> s \<noteq> ''always'' \<longrightarrow>
            (\<exists>m. parse_return_changes optarg bt = Inl (Exc_t LOGIC m bt 0)))
       \<and> (optarg ''return_changes'' = Some (Val_datum b (R_BOOL True)) \<longrightarrow>
            parse_return_changes optarg bt = Inr YES)
       \<and> (optarg ''return_changes'' = Some (Val_datum b (R_BOOL False)) \<longrightarrow>
            parse_return_changes optarg bt = Inr NO))
   \<and> (optarg ''return_vals'' = Some rv \<longrightarrow>
         parse_return_changes optarg bt = Inl (Exc_t LOGIC return_vals_msg bt 0))"
proof -
  have conflict: "as_str v \<notin> {Inr ''error'', Inr ''replace'', Inr ''update''} \<Longrightarrow>
         (\<exists>m. parse_conflict_optarg (Some v) = Inl (Exc_t LOGIC m (val_bt v) 0))"
    using as_str_cases [of v] by (auto simp: parse_conflict_optarg_def split: sum.splits)
  have dur: "as_str v \<notin> {Inr ''hard'', Inr ''soft''} \<Longrightarrow>
         (\<exists>m. parse_durability_optarg (Some v) = Inl (Exc_t LOGIC m (val_bt v) 0))"
    using as_str_cases [of v] by (auto simp: parse_durability_optarg_def split: sum.splits)
  have c: "parse_conflict_optarg None = Inr ERROR
    \<and> (as_str v = Inr ''error'' \<longrightarrow> parse_conflict_optarg (Some v) = Inr ERROR)
    \<and> (as_str v = Inr ''replace'' \<longrightarrow> parse_conflict_optarg (Some v) = Inr REPLACE)
    \<and> (as_str v = Inr ''update'' \<longrightarrow> parse_conflict_optarg (Some v) = Inr UPDATE)"
    by (simp add: parse_conflict_optarg_def)
  have d: "parse_durability_optarg None = Inr DURABILITY_REQUIREMENT_DEFAULT
    \<and> (as_str v = Inr ''hard'' \<longrightarrow> parse_durability_optarg (Some v) = Inr DURABILITY_REQUIREMENT_HARD)
    \<and> (as_str v = Inr ''soft'' \<longrightarrow> parse_durability_optarg (Some v) = Inr DURABILITY_REQUIREMENT_SOFT)"
    by (simp add: parse_durability_optarg_def)
  have r: "optarg ''return_vals'' = None \<Longrightarrow>
         (optarg ''return_changes'' = None \<longrightarrow> parse_return_changes optarg bt = Inr NO)
       \<and> (optarg ''return_changes'' = Some (Val_datum b (R_STR ''always'')) \<longrightarrow>
            parse_return_changes optarg bt = Inr ALWAYS)
       \<and> (optarg ''return_changes'' = Some (Val_datum b (R_STR s)) \<and> s \<noteq> ''always'' \<longrightarrow>
            (\<exists>m. parse_return_changes optarg bt = Inl (Exc_t LOGIC m bt 0)))
       \<and> (optarg ''return_changes'' = Some (Val_datum b (R_BOOL True)) \<longrightarrow>
            parse_return_changes optarg bt = Inr YES)
       \<and> (optarg ''return_changes'' = Some (Val_datum b (R_BOOL False)) \<longrightarrow>
            parse_return_changes optarg bt = Inr NO)"
    by (simp add: parse_return_changes_def)
  have rv: "optarg ''return_vals'' = Some rv \<Longrightarrow>
         parse_return_changes optarg bt = Inl (Exc_t LOGIC return_vals_msg bt 0)"
    by (simp add: parse_return_changes_def)
  show ?thesis using conflict dur c d r rv by blast
qed

theorem option_validation_witness:
  "parse_conflict_optarg (Some (Val_datum 3 (R_STR ''ignore''))) =
     Inl (Exc_t LOGIC ''Conflict option `ignore` unrecognized (options are \"error\", \"replace\" and \"update\").'' 3 0)
   \<and> parse_conflict_optarg (Some (Val_datum 3 (R_STR ''update''))) = Inr UPDATE
   \<and> parse_durability_optarg (Some (Val_datum 3 (R_STR ''update''))) =
     Inl (Exc_t LOGIC ''Durability option `update` unrecognized (options are \"hard\" and \"soft\").'' 3 0)
   \<and> parse_durability_optarg (Some (Val_datum 4 (R_STR ''soft''))) = Inr DURABILITY_REQUIREMENT_SOFT
   \<and> parse_return_changes [''return_changes'' \<mapsto> Val_datum 5 (R_STR ''always'')] 7 = Inr ALWAYS
   \<and> parse_return_changes [''return_changes'' \<mapsto> Val_datum 5 (R_BOOL True)] 7 = Inr YES
   \<and> parse_return_changes [''return_vals'' \<mapsto> Val_datum 5 (R_BOOL False)] 7 =
       Inl (Exc_t LOGIC return_vals_msg 7 0)"
  using option_validation [of "Val_datum 3 (R_STR ''ignore'')" "[''return_changes'' \<mapsto> Val_datum 5 (R_STR ''always'')]" 7 5 "''always''" "Val_datum 0 R_NULL"]
    option_validation [of "Val_datum 3 (R_STR ''update'')" "[''return_changes'' \<mapsto> Val_datum 5 (R_BOOL True)]" 7 5 "''x''" "Val_datum 0 R_NULL"]
    option_validation [of "Val_datum 4 (R_STR ''soft'')" "[''return_vals'' \<mapsto> Val_datum 5 (R_BOOL False)]" 7 5 "''x''" "Val_datum 5 (R_BOOL False)"]
  by (simp add: parse_conflict_optarg_def parse_durability_optarg_def)

subsection \<open>The object builder and the key generator\<close>

lemma map_of_builder_overwrite [simp]:
  "map_of (builder_overwrite b k v) = (map_of b)(k \<mapsto> v)"
  by (induction b k v rule: builder_overwrite.induct) auto

lemma keys_builder_overwrite:
  "map fst (builder_overwrite b k v) = (if k \<in> fst ` set b then map fst b else map fst b @ [k])"
  by (induction b k v rule: builder_overwrite.induct) (auto simp: rev_image_eqI)

lemma builder_add_new [simp]:
  "map_of b k = None \<Longrightarrow> builder_add b k v = (False, b @ [(k, v)])"
  by (simp add: builder_add_def)

lemma map_of_append_new:
  "map_of b k = None \<Longrightarrow> map_of (b @ [(k, v)]) = (map_of b)(k \<mapsto> v)"
  by (auto simp: map_add_def fun_eq_iff split: option.splits)

lemma show_nat_digit: "n < 10 \<Longrightarrow> show_nat n = [''0123456789'' ! n]"
  by (simp add: show_nat.simps digit_char_def)

text \<open>
  C4. The key generator on a document. A document that has a value at the primary-key
  field of the table comes back unchanged, with the flag \<open>false\<close> and the accumulators
  (so \<open>generated_keys\<close>) untouched. A document that lacks the field comes back with
  exactly one more top-level field, the primary-key field bound to the next key of
  the key source as a string, with the flag \<open>true\<close>; the key is drawn from the source,
  so the next document gets another one.
\<close>

theorem key_generation:
  "(map_of fs (get_pkey tbl) = Some v \<longrightarrow>
      maybe_generate_key tbl lim uuids kg (R_OBJECT fs) = (Inr (R_OBJECT fs, False), kg))
   \<and> (map_of fs (get_pkey tbl) = None \<longrightarrow>
        (\<exists>kg'. maybe_generate_key tbl lim uuids kg (R_OBJECT fs) =
                 (Inr (R_OBJECT (fs @ [(get_pkey tbl, R_STR (uuids (uuids_drawn kg)))]), True), kg')
              \<and> uuids_drawn kg' = Suc (uuids_drawn kg)))"
  by (simp add: maybe_generate_key_def Let_def builder_add_def)

theorem key_generation_witness:
  "maybe_generate_key stub_table \<lparr>array_size_limit = 5\<rparr> (\<lambda>i. ''k'' @ show_nat i) keygen_init
       (R_OBJECT [(''id'', R_NUM 1)])
     = (Inr (R_OBJECT [(''id'', R_NUM 1)], False), keygen_init)
   \<and> fst (maybe_generate_key stub_table \<lparr>array_size_limit = 5\<rparr> (\<lambda>i. ''k'' @ show_nat i) keygen_init
       (R_OBJECT [(''a'', R_NUM 1)]))
     = Inr (R_OBJECT [(''a'', R_NUM 1), (''id'', R_STR ''k0'')], True)"
  using key_generation [of "[(''id'', R_NUM 1)]" stub_table "R_NUM 1" "\<lparr>array_size_limit = 5\<rparr>"
        "\<lambda>i. ''k'' @ show_nat i" keygen_init]
    key_generation [of "[(''a'', R_NUM 1)]" stub_table "R_NUM 1" "\<lparr>array_size_limit = 5\<rparr>"
        "\<lambda>i. ''k'' @ show_nat i" keygen_init]
  by (auto simp: stub_table_def keygen_init_def show_nat_digit)

text \<open>
  C9. When the document lacks the primary-key field, the three sanity checks of the
  key generator hold: adding the key to the fresh builder reports no conflict, the
  merge of the one-field object gives the same result whatever the resolver is (so
  the resolver, \<open>pure_merge\<close>, is never called) and leaves the condition set empty,
  and the key generator returns without an error.
\<close>

theorem pure_merge_unreachable:
  assumes "map_of fs (get_pkey tbl) = None"
  shows "fst (builder_add [] (get_pkey tbl) keyd) = False
    \<and> (\<forall>f. datum_merge (R_OBJECT fs) (R_OBJECT (snd (builder_add [] (get_pkey tbl) keyd))) f lim []
            = Inr (R_OBJECT (fs @ [(get_pkey tbl, keyd)]), []))
    \<and> (\<exists>r kg'. maybe_generate_key tbl lim uuids kg (R_OBJECT fs) = (Inr r, kg'))"
  using assms by (auto simp: maybe_generate_key_def Let_def builder_add_def)

theorem pure_merge_unreachable_witness:
  "map_of [(''a'', R_NUM 1)] (get_pkey stub_table) = None
   \<and> datum_merge (R_OBJECT [(''a'', R_NUM 1)]) (R_OBJECT [(''id'', R_STR ''k0'')]) pure_merge
        \<lparr>array_size_limit = 5\<rparr> []
     = Inr (R_OBJECT [(''a'', R_NUM 1), (''id'', R_STR ''k0'')], [])"
proof -
  have h: "map_of [(''a'', R_NUM 1)] (get_pkey stub_table) = None"
    by (simp add: stub_table_def)
  show ?thesis
    using h pure_merge_unreachable [OF h, of "R_STR ''k0''" "\<lparr>array_size_limit = 5\<rparr>" "\<lambda>i. ''k'' @ show_nat i" keygen_init]
    by (simp add: stub_table_def builder_add_def)
qed

subsection \<open>Merging statistics\<close>

lemma stats_merge_allowed:
  assumes "allowed_field k x" "allowed_field k y"
  shows "\<exists>m. stats_merge k x y lim cs = Inr (m, cs) \<and> allowed_field k m
           \<and> (k \<in> set stats_keys \<longrightarrow> (\<exists>a b. x = R_NUM a \<and> y = R_NUM b \<and> m = R_NUM (a + b)))"
  using assms
  by (auto simp: allowed_field_def stats_merge_def split: if_splits datum_t.splits)

lemma map_of_None_keys: "map_of b k = None \<longleftrightarrow> k \<notin> fst ` set b"
  by (simp add: map_of_eq_None_iff)

lemma distinct_builder_overwrite:
  "distinct (map fst b) \<Longrightarrow> distinct (map fst (builder_overwrite b k v))"
  by (auto simp: keys_builder_overwrite)

lemma merge_fields_stats:
  assumes "allowed_map acc" "distinct (map fst r)" "\<forall>(k, v) \<in> set r. allowed_field k v"
  shows "\<exists>d. merge_fields acc r stats_merge lim cs = Inr (d, cs)
           \<and> allowed_map d
           \<and> (distinct (map fst acc) \<longrightarrow> distinct (map fst d))
           \<and> (\<forall>k. map_of r k = None \<longrightarrow> map_of d k = map_of acc k)
           \<and> (\<forall>k. map_of acc k = None \<longrightarrow> map_of d k = map_of r k)
           \<and> (\<forall>k \<in> set stats_keys. \<forall>a b. map_of acc k = Some (R_NUM a) \<longrightarrow> map_of r k = Some (R_NUM b)
                 \<longrightarrow> map_of d k = Some (R_NUM (a + b)))"
  using assms
proof (induction r arbitrary: acc)
  case Nil
  then show ?case by simp
next
  case (Cons p r)
  obtain key v where p: "p = (key, v)" by (cases p)
  from Cons.prems p have key_new: "map_of r key = None" and dr: "distinct (map fst r)"
    and ar: "\<forall>(k, v) \<in> set r. allowed_field k v" and av: "allowed_field key v"
    by (auto simp: map_of_None_keys)
  show ?case
  proof (cases "map_of acc key")
    case None
    let ?acc = "acc @ [(key, v)]"
    have m: "map_of ?acc = (map_of acc)(key \<mapsto> v)" using None by (rule map_of_append_new)
    have am: "allowed_map ?acc"
      using Cons.prems(1) av unfolding allowed_map_def m by auto
    from Cons.IH [OF am dr ar] obtain d where
      d: "merge_fields ?acc r stats_merge lim cs = Inr (d, cs)" "allowed_map d"
         "distinct (map fst ?acc) \<longrightarrow> distinct (map fst d)"
         "\<forall>k. map_of r k = None \<longrightarrow> map_of d k = map_of ?acc k"
         "\<forall>k. map_of ?acc k = None \<longrightarrow> map_of d k = map_of r k"
         "\<forall>k \<in> set stats_keys. \<forall>a b. map_of ?acc k = Some (R_NUM a) \<longrightarrow> map_of r k = Some (R_NUM b)
                 \<longrightarrow> map_of d k = Some (R_NUM (a + b))"
      by blast
    have run: "merge_fields acc (p # r) stats_merge lim cs = Inr (d, cs)"
      using None d(1) by (simp add: p)
    have dist: "distinct (map fst acc) \<longrightarrow> distinct (map fst d)"
      using d(3) None by (auto simp: map_of_None_keys)
    have k1: "\<forall>k. map_of (p # r) k = None \<longrightarrow> map_of d k = map_of acc k"
      using d(4) by (auto simp: p m simp del: map_of_append split: if_splits)
    have k2: "\<forall>k. map_of acc k = None \<longrightarrow> map_of d k = map_of (p # r) k"
    proof (intro allI impI)
      fix k assume "map_of acc k = None"
      then show "map_of d k = map_of (p # r) k"
        using d(4) d(5) key_new by (cases "k = key") (auto simp: p m simp del: map_of_append)
    qed
    have k3: "\<forall>k \<in> set stats_keys. \<forall>a b. map_of acc k = Some (R_NUM a) \<longrightarrow>
                map_of (p # r) k = Some (R_NUM b) \<longrightarrow> map_of d k = Some (R_NUM (a + b))"
    proof (intro ballI allI impI)
      fix k a b assume k: "k \<in> set stats_keys" and a: "map_of acc k = Some (R_NUM a)"
        and b: "map_of (p # r) k = Some (R_NUM b)"
      from a None have "k \<noteq> key" by auto
      then show "map_of d k = Some (R_NUM (a + b))"
        using d(6) k a b by (auto simp: p m simp del: map_of_append)
    qed
    show ?thesis using run d(2) dist k1 k2 k3 by blast
  next
    case (Some x)
    have ax: "allowed_field key x" using Cons.prems(1) Some by (simp add: allowed_map_def)
    from stats_merge_allowed [OF ax av, of lim cs] obtain mg where
      mg: "stats_merge key x v lim cs = Inr (mg, cs)" "allowed_field key mg"
          "key \<in> set stats_keys \<longrightarrow> (\<exists>a b. x = R_NUM a \<and> v = R_NUM b \<and> mg = R_NUM (a + b))"
      by blast
    let ?acc = "builder_overwrite acc key mg"
    have m: "map_of ?acc = (map_of acc)(key \<mapsto> mg)" by simp
    have am: "allowed_map ?acc"
      using Cons.prems(1) mg(2) unfolding allowed_map_def m by auto
    from Cons.IH [OF am dr ar] obtain d where
      d: "merge_fields ?acc r stats_merge lim cs = Inr (d, cs)" "allowed_map d"
         "distinct (map fst ?acc) \<longrightarrow> distinct (map fst d)"
         "\<forall>k. map_of r k = None \<longrightarrow> map_of d k = map_of ?acc k"
         "\<forall>k. map_of ?acc k = None \<longrightarrow> map_of d k = map_of r k"
         "\<forall>k \<in> set stats_keys. \<forall>a b. map_of ?acc k = Some (R_NUM a) \<longrightarrow> map_of r k = Some (R_NUM b)
                 \<longrightarrow> map_of d k = Some (R_NUM (a + b))"
      by blast
    have run: "merge_fields acc (p # r) stats_merge lim cs = Inr (d, cs)"
      using Some mg(1) d(1) by (simp add: p)
    have dist: "distinct (map fst acc) \<longrightarrow> distinct (map fst d)"
      using d(3) distinct_builder_overwrite by blast
    have k1: "\<forall>k. map_of (p # r) k = None \<longrightarrow> map_of d k = map_of acc k"
      using d(4) by (auto simp: p split: if_splits)
    have k2: "\<forall>k. map_of acc k = None \<longrightarrow> map_of d k = map_of (p # r) k"
    proof (intro allI impI)
      fix k assume n: "map_of acc k = None"
      with Some have "k \<noteq> key" by auto
      then show "map_of d k = map_of (p # r) k"
        using d(5) n by (auto simp: p)
    qed
    have k3: "\<forall>k \<in> set stats_keys. \<forall>a b. map_of acc k = Some (R_NUM a) \<longrightarrow>
                map_of (p # r) k = Some (R_NUM b) \<longrightarrow> map_of d k = Some (R_NUM (a + b))"
    proof (intro ballI allI impI)
      fix k a b assume k: "k \<in> set stats_keys" and a: "map_of acc k = Some (R_NUM a)"
        and b: "map_of (p # r) k = Some (R_NUM b)"
      show "map_of d k = Some (R_NUM (a + b))"
      proof (cases "k = key")
        case True
        with a b Some p have "x = R_NUM a" "v = R_NUM b" by auto
        with mg(3) k True have "mg = R_NUM (a + b)" by auto
        then show ?thesis using d(4) key_new True by simp
      next
        case False
        then show ?thesis using d(6) k a b by (auto simp: p)
      qed
    qed
    show ?thesis using run d(2) dist k1 k2 k3 by blast
  qed
qed


lemma is_stats_objectD:
  assumes "is_stats_object a"
  obtains fs where "a = R_OBJECT fs" "distinct (map fst fs)" "allowed_map fs"
    "\<forall>(k, v) \<in> set fs. allowed_field k v"
    "\<forall>k \<in> set stats_keys. \<exists>n. map_of fs k = Some (R_NUM n) \<and> 0 \<le> n"
proof -
  from assms obtain fs where a: "a = R_OBJECT fs"
    by (cases a) (auto simp: is_stats_object_def)
  from assms a have d: "distinct (map fst fs)" and p: "\<forall>k \<in> set stats_keys. map_of fs k \<noteq> None"
    and al: "\<forall>(k, v) \<in> set fs. allowed_field k v"
    by (auto simp: is_stats_object_def list_all_iff)
  have am: "allowed_map fs"
    unfolding allowed_map_def using al by (auto dest: map_of_SomeD)
  have c: "\<forall>k \<in> set stats_keys. \<exists>n. map_of fs k = Some (R_NUM n) \<and> 0 \<le> n"
  proof
    fix k assume k: "k \<in> set stats_keys"
    with p obtain v where v: "map_of fs k = Some v" by auto
    with am have "allowed_field k v" by (simp add: allowed_map_def)
    with k v show "\<exists>n. map_of fs k = Some (R_NUM n) \<and> 0 \<le> n"
      by (cases v) (auto simp: allowed_field_def)
  qed
  show thesis using that a d am al c by blast
qed

lemma stats_merge_objects:
  assumes "is_stats_object a" "is_stats_object b"
  shows "\<exists>ab. datum_merge a b stats_merge lim cs = Inr (ab, cs) \<and> is_stats_object ab
           \<and> (\<forall>k \<in> set stats_keys. \<exists>x y. get_field a k = Inr (R_NUM x)
                 \<and> get_field b k = Inr (R_NUM y) \<and> get_field ab k = Inr (R_NUM (x + y)))"
proof -
  from assms(1) obtain fa where a: "a = R_OBJECT fa" "distinct (map fst fa)" "allowed_map fa"
    "\<forall>k \<in> set stats_keys. \<exists>n. map_of fa k = Some (R_NUM n) \<and> 0 \<le> n"
    by (rule is_stats_objectD)
  from assms(2) obtain fb where b: "b = R_OBJECT fb" "distinct (map fst fb)"
    "\<forall>(k, v) \<in> set fb. allowed_field k v"
    "\<forall>k \<in> set stats_keys. \<exists>n. map_of fb k = Some (R_NUM n) \<and> 0 \<le> n"
    by (rule is_stats_objectD)
  from merge_fields_stats [OF a(3) b(2) b(3), of lim cs] obtain d where
    d: "merge_fields fa fb stats_merge lim cs = Inr (d, cs)" "allowed_map d"
       "distinct (map fst d)"
       "\<forall>k \<in> set stats_keys. \<forall>x y. map_of fa k = Some (R_NUM x) \<longrightarrow> map_of fb k = Some (R_NUM y)
                 \<longrightarrow> map_of d k = Some (R_NUM (x + y))"
    using a(2) by blast
  have run: "datum_merge a b stats_merge lim cs = Inr (R_OBJECT d, cs)"
    using d(1) by (simp add: a(1) b(1))
  have sums: "\<forall>k \<in> set stats_keys. \<exists>x y. map_of fa k = Some (R_NUM x)
                 \<and> map_of fb k = Some (R_NUM y) \<and> map_of d k = Some (R_NUM (x + y))"
    using a(4) b(4) d(4) by blast
  have "list_all (\<lambda>(k, v). allowed_field k v) d"
    using d(2) d(3) by (auto simp: list_all_iff allowed_map_def)
  moreover have "list_all (\<lambda>k. map_of d k \<noteq> None) stats_keys"
    using sums by (fastforce simp: list_all_iff)
  ultimately have "is_stats_object (R_OBJECT d)"
    using d(3) by (simp add: is_stats_object_def)
  moreover have "\<forall>k \<in> set stats_keys. \<exists>x y. get_field a k = Inr (R_NUM x)
                 \<and> get_field b k = Inr (R_NUM y) \<and> get_field (R_OBJECT d) k = Inr (R_NUM (x + y))"
    using sums by (fastforce simp: a(1) b(1))
  ultimately show ?thesis using run by blast
qed

text \<open>
  C3. Merging statistics objects is associative and commutative on the six counters:
  for statistics objects \<open>a\<close>, \<open>b\<close> and \<open>c\<close> every merge succeeds, each counter of
  \<open>merge(merge(a,b),c)\<close> equals that of \<open>merge(a,merge(b,c))\<close>, and each counter of
  \<open>merge(a,b)\<close> equals that of \<open>merge(b,a)\<close>.
\<close>

theorem stats_merge_assoc_comm:
  assumes "is_stats_object a" "is_stats_object b" "is_stats_object c"
  shows "\<exists>ab ba bc l r.
           datum_merge a b stats_merge lim cs = Inr (ab, cs)
         \<and> datum_merge b a stats_merge lim cs = Inr (ba, cs)
         \<and> datum_merge b c stats_merge lim cs = Inr (bc, cs)
         \<and> datum_merge ab c stats_merge lim cs = Inr (l, cs)
         \<and> datum_merge a bc stats_merge lim cs = Inr (r, cs)
         \<and> (\<forall>k \<in> set stats_keys. get_field l k = get_field r k \<and> get_field ab k = get_field ba k)"
proof -
  from stats_merge_objects [OF assms(1) assms(2), of lim cs] obtain ab where
    ab: "datum_merge a b stats_merge lim cs = Inr (ab, cs)" "is_stats_object ab"
        "\<forall>k \<in> set stats_keys. \<exists>x y. get_field a k = Inr (R_NUM x)
             \<and> get_field b k = Inr (R_NUM y) \<and> get_field ab k = Inr (R_NUM (x + y))"
    by blast
  from stats_merge_objects [OF assms(2) assms(1), of lim cs] obtain ba where
    ba: "datum_merge b a stats_merge lim cs = Inr (ba, cs)"
        "\<forall>k \<in> set stats_keys. \<exists>x y. get_field b k = Inr (R_NUM x)
             \<and> get_field a k = Inr (R_NUM y) \<and> get_field ba k = Inr (R_NUM (x + y))"
    by blast
  from stats_merge_objects [OF assms(2) assms(3), of lim cs] obtain bc where
    bc: "datum_merge b c stats_merge lim cs = Inr (bc, cs)" "is_stats_object bc"
        "\<forall>k \<in> set stats_keys. \<exists>x y. get_field b k = Inr (R_NUM x)
             \<and> get_field c k = Inr (R_NUM y) \<and> get_field bc k = Inr (R_NUM (x + y))"
    by blast
  from stats_merge_objects [OF ab(2) assms(3), of lim cs] obtain l where
    l: "datum_merge ab c stats_merge lim cs = Inr (l, cs)"
       "\<forall>k \<in> set stats_keys. \<exists>x y. get_field ab k = Inr (R_NUM x)
             \<and> get_field c k = Inr (R_NUM y) \<and> get_field l k = Inr (R_NUM (x + y))"
    by blast
  from stats_merge_objects [OF assms(1) bc(2), of lim cs] obtain r where
    r: "datum_merge a bc stats_merge lim cs = Inr (r, cs)"
       "\<forall>k \<in> set stats_keys. \<exists>x y. get_field a k = Inr (R_NUM x)
             \<and> get_field bc k = Inr (R_NUM y) \<and> get_field r k = Inr (R_NUM (x + y))"
    by blast
  have "\<forall>k \<in> set stats_keys. get_field l k = get_field r k \<and> get_field ab k = get_field ba k"
  proof
    fix k assume k: "k \<in> set stats_keys"
    from ab(3) k obtain x y where 1: "get_field a k = Inr (R_NUM x)" "get_field b k = Inr (R_NUM y)"
      "get_field ab k = Inr (R_NUM (x + y))" by blast
    from ba(2) k 1 have 2: "get_field ba k = Inr (R_NUM (y + x))" by fastforce
    from bc(3) k 1 obtain z where 3: "get_field c k = Inr (R_NUM z)"
      "get_field bc k = Inr (R_NUM (y + z))" by fastforce
    from l(2) k 1 3 have 4: "get_field l k = Inr (R_NUM (x + y + z))" by fastforce
    from r(2) k 1 3 have 5: "get_field r k = Inr (R_NUM (x + (y + z)))" by fastforce
    show "get_field l k = get_field r k \<and> get_field ab k = get_field ba k"
      using 1 2 4 5 by (simp add: add.assoc add.commute)
  qed
  then show ?thesis using ab(1) ba(1) bc(1) l(1) r(1) by blast
qed

theorem stats_merge_assoc_comm_witness:
  "is_stats_object (stub_stats ''inserted'' 2) \<and> is_stats_object (stub_stats ''errors'' 1)
   \<and> is_stats_object (stub_stats ''inserted'' 3)
   \<and> (\<exists>ab ba bc l r.
           datum_merge (stub_stats ''inserted'' 2) (stub_stats ''errors'' 1) stats_merge \<lparr>array_size_limit = 10\<rparr> [] = Inr (ab, [])
         \<and> datum_merge (stub_stats ''errors'' 1) (stub_stats ''inserted'' 2) stats_merge \<lparr>array_size_limit = 10\<rparr> [] = Inr (ba, [])
         \<and> datum_merge (stub_stats ''errors'' 1) (stub_stats ''inserted'' 3) stats_merge \<lparr>array_size_limit = 10\<rparr> [] = Inr (bc, [])
         \<and> datum_merge ab (stub_stats ''inserted'' 3) stats_merge \<lparr>array_size_limit = 10\<rparr> [] = Inr (l, [])
         \<and> datum_merge (stub_stats ''inserted'' 2) bc stats_merge \<lparr>array_size_limit = 10\<rparr> [] = Inr (r, [])
         \<and> (\<forall>k \<in> set stats_keys. get_field l k = get_field r k \<and> get_field ab k = get_field ba k))"
proof -
  have 1: "is_stats_object (stub_stats ''inserted'' 2)"
    by (simp add: is_stats_object_def stub_stats_def stats_keys_def allowed_field_def)
  have 2: "is_stats_object (stub_stats ''errors'' 1)"
    by (simp add: is_stats_object_def stub_stats_def stats_keys_def allowed_field_def)
  have 3: "is_stats_object (stub_stats ''inserted'' 3)"
    by (simp add: is_stats_object_def stub_stats_def stats_keys_def allowed_field_def)
  show ?thesis
    using 1 2 3 stats_merge_assoc_comm [OF 1 2 3, of "\<lparr>array_size_limit = 10\<rparr>" "[]"] by blast
qed

text \<open>
  Merging the statistics of any number of batches, one after the other, adds up each
  counter: the totals depend on the per-batch statistics only through their sums, not
  on the order or the grouping of the merges.
\<close>

lemma merge_each_totals:
  assumes "\<forall>x \<in> set xs. is_stats_object x" "is_stats_object a"
  shows "\<exists>t. merge_each xs lim (a, cs) = Inr (t, cs) \<and> is_stats_object t
           \<and> (\<forall>k \<in> set stats_keys. counter_of t k = counter_of a k + sum_list (map (\<lambda>x. counter_of x k) xs))"
  using assms
proof (induction xs arbitrary: a)
  case Nil
  then show ?case by simp
next
  case (Cons x xs)
  from Cons.prems have x: "is_stats_object x" and xs: "\<forall>x \<in> set xs. is_stats_object x" by auto
  from stats_merge_objects [OF Cons.prems(2) x, of lim cs] obtain ax where
    ax: "datum_merge a x stats_merge lim cs = Inr (ax, cs)" "is_stats_object ax"
        "\<forall>k \<in> set stats_keys. \<exists>p q. get_field a k = Inr (R_NUM p)
             \<and> get_field x k = Inr (R_NUM q) \<and> get_field ax k = Inr (R_NUM (p + q))"
    by blast
  from Cons.IH [OF xs ax(2)] obtain t where
    t: "merge_each xs lim (ax, cs) = Inr (t, cs)" "is_stats_object t"
       "\<forall>k \<in> set stats_keys. counter_of t k = counter_of ax k + sum_list (map (\<lambda>x. counter_of x k) xs)"
    by blast
  have "\<forall>k \<in> set stats_keys. counter_of ax k = counter_of a k + counter_of x k"
    using ax(3) by (fastforce simp: counter_of_def)
  then have "\<forall>k \<in> set stats_keys.
               counter_of t k = counter_of a k + sum_list (map (\<lambda>x. counter_of x k) (x # xs))"
    using t(3) by simp
  then show ?case using ax(1) t(1) t(2) by simp
qed

subsection \<open>Replace: the determinism gate\<close>

lemma parse_return_changes_error:
  "parse_return_changes optarg bt = Inl e \<Longrightarrow> get_type e = LOGIC"
  by (auto simp: parse_return_changes_def split: option.splits sum.splits datum_t.splits if_splits
      elim!: as_datum.elims as_bool.elims)

lemma parse_durability_optarg_error:
  assumes "parse_durability_optarg arg = Inl e"
  shows "get_type e = LOGIC"
proof (cases arg)
  case None
  then show ?thesis using assms by (simp add: parse_durability_optarg_def)
next
  case (Some v)
  then show ?thesis
    using assms as_str_cases [of v]
    by (auto simp: parse_durability_optarg_def split: sum.splits if_splits)
qed

text \<open>
  C1. When the \<open>non_atomic\<close> option is absent or false and the second argument is not
  provably deterministic, \<open>replace\<close> fails with a \<open>LOGIC\<close> error and leaves the world
  as it was: nothing is logged, so no call of the table engine was made and no batch
  was pulled. When the other options are valid the error is the one of the
  determinism check.
\<close>

theorem determinism_gate:
  assumes "(case optarg ''non_atomic'' of None \<Rightarrow> Inr False | Some v \<Rightarrow> as_bool v) = Inr False"
  shows "\<exists>e. replace_term_eval_impl env optarg bt False v0 v1 w = (Inl e, w)
           \<and> get_type e = LOGIC
           \<and> (\<forall>rc dur. parse_return_changes optarg bt = Inr rc
                \<longrightarrow> parse_durability_optarg (optarg ''durability'') = Inr dur
                \<longrightarrow> e = Exc_t LOGIC nondeterministic_msg bt 0)"
proof (cases "parse_return_changes optarg bt")
  case (Inl e)
  then show ?thesis
    using assms parse_return_changes_error [OF Inl]
    by (simp add: replace_term_eval_impl_def)
next
  case rc: (Inr rc)
  show ?thesis
  proof (cases "parse_durability_optarg (optarg ''durability'')")
    case (Inl e)
    then show ?thesis
      using assms rc parse_durability_optarg_error [OF Inl]
      by (simp add: replace_term_eval_impl_def)
  next
    case (Inr dur)
    then show ?thesis
      using assms rc by (simp add: replace_term_eval_impl_def)
  qed
qed

theorem determinism_gate_witness:
  "replace_term_eval_impl (stub_env 10) Map.empty 7 False
      (Arg_selection 1 stub_table [[R_OBJECT [(''id'', R_NUM 1)]]]) (Arg_func 2 nondet_func)
      stub_world
   = (Inl (Exc_t LOGIC nondeterministic_msg 7 0), stub_world)
   \<and> trace stub_world = []"
proof -
  have h: "(case Map.empty ''non_atomic'' of None \<Rightarrow> Inr False | Some v \<Rightarrow> as_bool v) = Inr False"
    by simp
  have rc: "parse_return_changes Map.empty 7 = Inr NO"
    by (simp add: parse_return_changes_def)
  have dur: "parse_durability_optarg (Map.empty ''durability'') = Inr DURABILITY_REQUIREMENT_DEFAULT"
    by (simp add: parse_durability_optarg_def)
  from determinism_gate [OF h, of "stub_env 10" 7
      "Arg_selection 1 stub_table [[R_OBJECT [(''id'', R_NUM 1)]]]" "Arg_func 2 nondet_func" stub_world]
  show ?thesis using rc dur by (auto simp: stub_world_def)
qed

subsection \<open>Replace over a row set: where the keys come from\<close>



lemma trace_log_event [simp]: "trace (log_event ev w) = trace w @ [ev]"
  by (simp add: log_event_def)

lemma engine_log_event [simp]: "engine (log_event ev w) = engine w"
  by (simp add: log_event_def)















subsection \<open>Foreach: errors\<close>

lemma foreach_rows_append:
  "foreach_rows env f (pre @ rest) acc w =
     (case foreach_rows env f pre acc w of
        (Inl e, w') \<Rightarrow> (Inl e, w')
      | (Inr acc', w') \<Rightarrow> foreach_rows env f rest acc' w')"
  by (induction pre arbitrary: acc w) (auto simp: Let_def split: prod.splits sum.splits)

lemma foreach_rethrow_type [simp]: "get_type (foreach_rethrow v e) = get_type e"
  by (cases e) auto

lemma foreach_rethrow_carries [simp]: "carries_fail_msg (foreach_rethrow v e)"
  by (cases e) (auto simp: carries_fail_msg_def)

text \<open>
  C7, as the code has it. Let the rows before \<open>row\<close> have been processed. If the call of
  the function on \<open>row\<close> raises, \<open>foreach\<close> stops there and raises that error as it is. If
  the call returns and the interpretation of its result raises, \<open>foreach\<close> stops there
  and raises an error of the same classification whose message starts with the fixed
  message: an \<open>exc_t\<close> keeps its backtrace and frames and gets the fixed message alone, a
  \<open>datum_exc_t\<close> is raised at the backtrace of the result with the fixed message followed
  by its own. In both cases the log ends with the call on \<open>row\<close>: no later row is pulled
  or processed.
\<close>

theorem foreach_fail_fast:
  assumes "as_seq (batching env) v0 = Inr ds"
    and "as_func v1 = Inr f"
    and "stream_rows ds = pre @ row # post"
    and "foreach_rows env f pre (R_OBJECT [], []) w = (Inr acc1, w1)"
    and "call f (engine w1) row = (r, engine')"
  shows "(\<forall>e. r = Inl e \<longrightarrow>
            foreach_term_eval_impl env v0 v1 w
              = (Inl e, w1\<lparr>engine := engine', trace := trace w1 @ [E_next, E_call row]\<rparr>))
       \<and> (\<forall>v e. r = Inr v \<and> foreach_merge v (limits env) acc1 = Inl e \<longrightarrow>
            foreach_term_eval_impl env v0 v1 w
              = (Inl (foreach_rethrow v e),
                 w1\<lparr>engine := engine', trace := trace w1 @ [E_next, E_call row]\<rparr>)
            \<and> get_type (foreach_rethrow v e) = get_type e
            \<and> carries_fail_msg (foreach_rethrow v e)
            \<and> (\<forall>t m bt frames. e = Exc_t t m bt frames \<longrightarrow>
                  foreach_rethrow v e = Exc_t t fail_msg bt frames)
            \<and> (\<forall>t m. e = Datum_exc_t t m \<longrightarrow>
                  foreach_rethrow v e = Exc_t t (fail_msg @ ''  '' @ m) (val_bt v) 0))"
proof -
  have rows: "foreach_rows env f (stream_rows ds) (R_OBJECT [], []) w
                = foreach_rows env f (row # post) acc1 w1"
    using assms(3) assms(4) by (simp add: foreach_rows_append)
  have w': "log_event (E_call row) ((log_event E_next w1)\<lparr>engine := engine'\<rparr>)
              = w1\<lparr>engine := engine', trace := trace w1 @ [E_next, E_call row]\<rparr>"
    by (simp add: log_event_def)
  have 1: "\<forall>e. r = Inl e \<longrightarrow>
            foreach_term_eval_impl env v0 v1 w
              = (Inl e, w1\<lparr>engine := engine', trace := trace w1 @ [E_next, E_call row]\<rparr>)"
    using assms(1,2,5) rows w'
    by (simp add: foreach_term_eval_impl_def foreach_loop_def Let_def)
  have 2: "\<forall>v e. r = Inr v \<and> foreach_merge v (limits env) acc1 = Inl e \<longrightarrow>
            foreach_term_eval_impl env v0 v1 w
              = (Inl (foreach_rethrow v e),
                 w1\<lparr>engine := engine', trace := trace w1 @ [E_next, E_call row]\<rparr>)"
    using assms(1,2,5) rows w'
    by (simp add: foreach_term_eval_impl_def foreach_loop_def Let_def)
  show ?thesis using 1 2 by simp
qed

lemma stub_stats_inserted:
  "stub_stats ''inserted'' n =
     R_OBJECT [(''inserted'', R_NUM (int n)), (''deleted'', R_NUM 0), (''skipped'', R_NUM 0),
               (''replaced'', R_NUM 0), (''unchanged'', R_NUM 0), (''errors'', R_NUM 0)]"
  by (simp add: stub_stats_def stats_keys_def)

theorem foreach_fail_fast_witness:
  "foreach_term_eval_impl (stub_env 10)
      (Arg_sequence 1 [[R_OBJECT [], R_NUM 3, R_OBJECT []]]) (Arg_func 2 mixed_func) stub_world
   = (Inl (Exc_t LOGIC (fail_msg @ ''  Expected type ARRAY'') 5 0),
      \<lparr>engine = 2, trace = [E_next, E_call (R_OBJECT []), E_next, E_call (R_NUM 3)]\<rparr>)
   \<and> foreach_term_eval_impl (stub_env 10)
      (Arg_sequence 1 [[R_NULL, R_OBJECT []]]) (Arg_func 2 mixed_func) stub_world
   = (Inl (Exc_t LOGIC fail_msg 6 0), \<lparr>engine = 1, trace = [E_next, E_call R_NULL]\<rparr>)"
proof -
  have s: "as_seq (batching (stub_env 10)) (Arg_sequence 1 [[R_OBJECT [], R_NUM 3, R_OBJECT []]])
             = Inr [[R_OBJECT [], R_NUM 3, R_OBJECT []]]"
    "as_seq (batching (stub_env 10)) (Arg_sequence 1 [[R_NULL, R_OBJECT []]])
             = Inr [[R_NULL, R_OBJECT []]]"
    by simp_all
  have f: "as_func (Arg_func 2 mixed_func) = Inr mixed_func" by simp
  have r1: "stream_rows [[R_OBJECT [], R_NUM 3, R_OBJECT []]] = [R_OBJECT []] @ R_NUM 3 # [R_OBJECT []]"
    and r2: "stream_rows [[R_NULL, R_OBJECT []]] = [] @ R_NULL # [R_OBJECT []]"
    by simp_all
  have p1: "foreach_rows (stub_env 10) mixed_func [R_OBJECT []] (R_OBJECT [], []) stub_world
      = (Inr (stub_stats ''inserted'' 1, []), \<lparr>engine = 1, trace = [E_next, E_call (R_OBJECT [])]\<rparr>)"
    by (simp add: mixed_func_def stub_world_def foreach_merge_def stub_stats_inserted
        builder_add_def log_event_def stub_env_def)
  have p2: "foreach_rows (stub_env 10) mixed_func [] (R_OBJECT [], []) stub_world
      = (Inr (R_OBJECT [], []), stub_world)"
    by simp
  have c1: "call mixed_func (engine \<lparr>engine = 1::nat, trace = [E_next, E_call (R_OBJECT [])]\<rparr>) (R_NUM 3)
      = (Inr (Val_datum 5 (R_NUM 3)), 2)"
    by (simp add: mixed_func_def)
  have c2: "call mixed_func (engine stub_world) R_NULL = (Inr (Val_other 6), 1)"
    by (simp add: mixed_func_def stub_world_def)
  have m1: "foreach_merge (Val_datum 5 (R_NUM 3)) (limits (stub_env 10)) (stub_stats ''inserted'' 1, [])
      = Inl (Datum_exc_t LOGIC ''Expected type ARRAY'')"
    by (simp add: foreach_merge_def type_error_def)
  have m2: "foreach_merge (Val_other 6) (limits (stub_env 10)) (R_OBJECT [], [])
      = Inl (Exc_t LOGIC ''Expected type DATUM'' 6 0)"
    by (simp add: foreach_merge_def)
  show ?thesis
    using foreach_fail_fast [OF s(1) f r1 p1 c1] foreach_fail_fast [OF s(2) f r2 p2 c2] m1 m2
    by (simp add: stub_world_def)
qed

text \<open>
  The claim as stated fails on an error of the function itself: it is raised as it is,
  without the fixed message.
\<close>

theorem foreach_function_error_counterexample:
  "foreach_term_eval_impl (stub_env 10) (Arg_sequence 1 [[R_OBJECT []]]) (Arg_func 2 failing_func)
      stub_world
   = (Inl (Exc_t OP_FAILED ''Table `test.t` does not exist.'' 4 0),
      \<lparr>engine = 0, trace = [E_next, E_call (R_OBJECT [])]\<rparr>)
   \<and> \<not> carries_fail_msg (Exc_t OP_FAILED ''Table `test.t` does not exist.'' 4 0)"
  by (simp add: foreach_term_eval_impl_def foreach_loop_def failing_func_def stub_world_def
      log_event_def carries_fail_msg_def fail_msg_def)

subsection \<open>Insert: the generated keys and the skip count\<close>

lemma maybe_generate_key_absent:
  assumes "map_of fs (get_pkey tbl) = None"
  shows "maybe_generate_key tbl lim uuids kg (R_OBJECT fs) =
     (Inr (R_OBJECT (fs @ [(get_pkey tbl, R_STR (uuids (uuids_drawn kg)))]), True),
      (if length (generated_keys kg) < array_size_limit lim
       then kg\<lparr>uuids_drawn := Suc (uuids_drawn kg),
                generated_keys := generated_keys kg @ [uuids (uuids_drawn kg)]\<rparr>
       else kg\<lparr>uuids_drawn := Suc (uuids_drawn kg), keys_skipped := keys_skipped kg + 1\<rparr>))"
  using assms by (simp add: maybe_generate_key_def Let_def builder_add_def)

lemma maybe_generate_key_cases:
  "(\<exists>e. maybe_generate_key tbl lim uuids kg d = (Inl e, kg))
   \<or> maybe_generate_key tbl lim uuids kg d = (Inr (d, False), kg)
   \<or> (\<exists>fs. d = R_OBJECT fs \<and> map_of fs (get_pkey tbl) = None)"
  by (cases d) (auto simp: maybe_generate_key_def split: option.splits)

text \<open>The key generator raises only on a document that is not an object, before it changes anything.\<close>

lemma maybe_generate_key_error:
  assumes "maybe_generate_key tbl lim uuids kg d = (Inl e, kg')"
  shows "e = type_error ''OBJECT'' \<and> kg' = kg \<and> (\<forall>fs. d \<noteq> R_OBJECT fs)"
  using assms
  by (cases d) (auto simp: maybe_generate_key_def Let_def builder_add_def split: option.splits)

lemma keygen_inv_step:
  assumes "keygen_inv lim uuids kg"
  shows "keygen_inv lim uuids
           (if length (generated_keys kg) < array_size_limit lim
            then kg\<lparr>uuids_drawn := Suc (uuids_drawn kg),
                     generated_keys := generated_keys kg @ [uuids (uuids_drawn kg)]\<rparr>
            else kg\<lparr>uuids_drawn := Suc (uuids_drawn kg), keys_skipped := keys_skipped kg + 1\<rparr>)"
proof (cases "uuids_drawn kg < array_size_limit lim")
  case True
  then have m: "min (uuids_drawn kg) (array_size_limit lim) = uuids_drawn kg"
    "min (Suc (uuids_drawn kg)) (array_size_limit lim) = Suc (uuids_drawn kg)" by auto
  show ?thesis using assms True by (simp add: keygen_inv_def m)
next
  case False
  then have m: "min (uuids_drawn kg) (array_size_limit lim) = array_size_limit lim"
    "min (Suc (uuids_drawn kg)) (array_size_limit lim) = array_size_limit lim" by auto
  show ?thesis using assms False by (simp add: keygen_inv_def m Suc_diff_le)
qed

lemma maybe_generate_key_inv:
  assumes "keygen_inv lim uuids kg"
  shows "keygen_inv lim uuids (snd (maybe_generate_key tbl lim uuids kg d))"
  using maybe_generate_key_cases [of tbl lim uuids kg d] assms keygen_inv_step [OF assms]
  by (auto simp: maybe_generate_key_absent)

lemma generate_keys_inv:
  "keygen_inv lim uuids kg \<Longrightarrow> keygen_inv lim uuids (fst (generate_keys tbl lim uuids kg ds))"
proof (induction ds arbitrary: kg)
  case Nil
  then show ?case by simp
next
  case (Cons d ds)
  from maybe_generate_key_inv [OF Cons.prems, of tbl d]
  have "keygen_inv lim uuids (snd (maybe_generate_key tbl lim uuids kg d))" .
  from Cons.IH [OF this] show ?case
    by (auto split: prod.splits sum.splits)
qed

lemma insert_batch_inv:
  assumes "insert_batch env t cb dur rc datums (stats, conds, kg) w = (Inr (stats', conds', kg'), w')"
    and "keygen_inv (limits env) (uuid_source env) kg"
  shows "keygen_inv (limits env) (uuid_source env) kg'"
  using assms generate_keys_inv [OF assms(2), of t datums]
  by (auto simp: insert_batch_def Let_def split: prod.splits sum.splits)

lemma insert_loop_inv:
  assumes "insert_loop env t cb dur rc ds (stats, conds, kg) w = (Inr (stats', conds', kg'), w')"
    and "keygen_inv (limits env) (uuid_source env) kg"
  shows "keygen_inv (limits env) (uuid_source env) kg'"
  using assms
proof (induction ds arbitrary: stats conds kg w)
  case Nil
  then show ?case by simp
next
  case (Cons datums rest)
  show ?case
  proof (cases "datums = []")
    case True
    then show ?thesis using Cons.prems by simp
  next
    case False
    let ?w1 = "log_event E_next_batch w"
    obtain r w1 where b: "insert_batch env t cb dur rc datums (stats, conds, kg) ?w1 = (r, w1)"
      by (cases "insert_batch env t cb dur rc datums (stats, conds, kg) ?w1")
    show ?thesis
    proof (cases r)
      case (Inl e)
      then show ?thesis using Cons.prems(1) False b by simp
    next
      case (Inr acc1)
      obtain s1 c1 kg1 where acc1: "acc1 = (s1, c1, kg1)" by (cases acc1)
      have inv1: "keygen_inv (limits env) (uuid_source env) kg1"
        using insert_batch_inv [OF b [unfolded Inr acc1] Cons.prems(2)] .
      have "insert_loop env t cb dur rc rest (s1, c1, kg1) w1 = (Inr (stats', conds', kg'), w')"
        using Cons.prems(1) False b Inr acc1 by simp
      from Cons.IH [OF this inv1] show ?thesis .
    qed
  qed
qed

lemma keygen_inv_init: "keygen_inv lim uuids keygen_init"
  by (simp add: keygen_inv_def keygen_init_def)

lemma insert_source_inv:
  assumes "insert_source env t cb dur rc v1 w = (Inr (stats, conds, kg), w')"
  shows "keygen_inv (limits env) (uuid_source env) kg"
  using assms insert_batch_inv [OF _ keygen_inv_init] insert_loop_inv [OF _ keygen_inv_init]
  by (auto simp: insert_source_def Let_def split: option.splits sum.splits if_splits)

lemma map_of_snoc:
  "map_of (b @ [(k, v)]) k' =
     (case map_of b k' of None \<Rightarrow> (if k' = k then Some v else None) | Some x \<Rightarrow> Some x)"
  by (auto simp: map_add_def split: option.splits)

lemma add_warning_effect:
  assumes "add_warning obj msg lim = Inr obj'"
  shows "R_STR msg \<in> set (warnings_of obj')"
    and "warnings_of obj' = warnings_of obj \<or> warnings_of obj' = warnings_of obj @ [R_STR msg]"
    and "k \<noteq> ''warnings'' \<Longrightarrow> map_of obj' k = map_of obj k"
  using assms
  by (auto simp: add_warning_def warnings_of_def map_of_snoc simp del: map_of_append
      split: option.splits datum_t.splits if_splits)

lemma add_warnings_other:
  "add_warnings obj msgs lim = Inr obj' \<Longrightarrow> k \<noteq> ''warnings'' \<Longrightarrow> map_of obj' k = map_of obj k"
proof (induction msgs arbitrary: obj)
  case Nil
  then show ?case by simp
next
  case (Cons m msgs)
  then show ?case
    by (auto split: sum.splits dest: add_warning_effect(3))
qed

lemma fold_generated_keys:
  assumes "datum_merge stats (R_OBJECT (snd (builder_add [] ''generated_keys'' arr)))
             pure_merge lim conds = Inr (stats', conds')"
  shows "\<exists>fs. stats = R_OBJECT fs \<and> map_of fs ''generated_keys'' = None
           \<and> stats' = R_OBJECT (fs @ [(''generated_keys'', arr)]) \<and> conds' = conds"
  using assms
  by (cases stats)
     (auto simp: builder_add_def pure_merge_def type_error_def split: option.splits sum.splits)

lemma insert_totals_generated_keys:
  assumes "insert_totals lim (stats, conds, kg) = Inr obj" "generated_keys kg \<noteq> []"
  shows "map_of obj ''generated_keys'' = Some (R_ARRAY (map R_STR (generated_keys kg)))"
proof -
  from assms obtain stats' conds' where
    m: "datum_merge stats (R_OBJECT (snd (builder_add [] ''generated_keys''
              (R_ARRAY (map R_STR (generated_keys kg)))))) pure_merge lim conds = Inr (stats', conds')"
    by (auto simp: insert_totals_def split: sum.splits)
  from fold_generated_keys [OF m] obtain fs where
    fs: "map_of fs ''generated_keys'' = None"
        "stats' = R_OBJECT (fs @ [(''generated_keys'', R_ARRAY (map R_STR (generated_keys kg)))])"
    by blast
  have "add_warnings (fs @ [(''generated_keys'', R_ARRAY (map R_STR (generated_keys kg)))]) conds' lim
          = Inr obj"
    using assms m fs(2) by (simp add: insert_totals_def)
  from add_warnings_other [OF this, of "''generated_keys''"] fs(1) show ?thesis
    by (simp add: map_of_snoc del: map_of_append)
qed

lemma keygen_inv_bounds:
  assumes "keygen_inv lim uuids kg"
  shows "length (generated_keys kg) \<le> array_size_limit lim"
    and "keys_skipped kg > 0 \<Longrightarrow> length (generated_keys kg) = array_size_limit lim"
    and "generated_keys kg = take (array_size_limit lim) (map uuids [0..<uuids_drawn kg])"
    and "keys_skipped kg = of_nat (uuids_drawn kg - array_size_limit lim)"
    and "uuids_drawn kg < 2 ^ 64 \<Longrightarrow>
           length (generated_keys kg) + unat (keys_skipped kg) = uuids_drawn kg"
proof -
  let ?d = "uuids_drawn kg" and ?L = "array_size_limit lim"
  from assms have gk: "generated_keys kg = map uuids [0..<min ?d ?L]"
    and sk: "keys_skipped kg = of_nat (?d - ?L)"
    by (simp_all add: keygen_inv_def)
  show "length (generated_keys kg) \<le> ?L" using gk by simp
  show "keys_skipped kg = of_nat (?d - ?L)" by (rule sk)
  show "generated_keys kg = take ?L (map uuids [0..<?d])"
  proof (cases "?L \<le> ?d")
    case True
    then show ?thesis using gk by (simp add: take_map min_def)
  next
    case False
    then show ?thesis using gk by (simp add: take_map min_def)
  qed
  show "length (generated_keys kg) = ?L" if "keys_skipped kg > 0"
  proof (cases "?L \<le> ?d")
    case True
    then show ?thesis using gk by (simp add: min_def)
  next
    case False
    then have "keys_skipped kg = 0" using sk by simp
    with that show ?thesis by simp
  qed
  show "length (generated_keys kg) + unat (keys_skipped kg) = ?d" if "?d < 2 ^ 64"
  proof -
    have "?d - ?L < 2 ^ 64" using that by simp
    then have "unat (keys_skipped kg) = ?d - ?L"
      using sk by (simp add: unat_of_nat)
    then show ?thesis using gk by (simp add: min_def)
  qed
qed

subsection \<open>Insert: what is handed to the table engine\<close>

lemma upt_split:
  assumes "a \<le> b" "b \<le> c"
  shows "[a..<c] = [a..<b] @ [b..<c]"
  using upt_add_eq_append [OF assms(1), of "c - b"] assms(2) by simp

lemma insert_calls_append: "insert_calls (a @ b) = insert_calls a @ insert_calls b"
  by (induction a rule: insert_calls.induct) simp_all

lemma merged_keys_append:
  "merged_keys pk (a @ b) = merged_keys pk a @ merged_keys pk b"
  by (simp add: merged_keys_def)

lemma maybe_generate_key_keyed:
  assumes "maybe_generate_key tbl lim uuids kg d = (r, kg1)"
  shows "keyed (get_pkey tbl) d (case r of Inl e \<Rightarrow> (d, False) | Inr p \<Rightarrow> p)
       \<and> doc_keys (get_pkey tbl) [case r of Inl e \<Rightarrow> (d, False) | Inr p \<Rightarrow> p]
           = map uuids [uuids_drawn kg..<uuids_drawn kg1]
       \<and> uuids_drawn kg \<le> uuids_drawn kg1"
proof (cases "lacks_key (get_pkey tbl) d")
  case True
  then obtain fs where d: "d = R_OBJECT fs" and n: "map_of fs (get_pkey tbl) = None"
    by (cases d) (auto simp: lacks_key_def)
  from assms maybe_generate_key_absent [OF n, of lim uuids kg]
  have r: "r = Inr (R_OBJECT (fs @ [(get_pkey tbl, R_STR (uuids (uuids_drawn kg)))]), True)"
    and k: "uuids_drawn kg1 = Suc (uuids_drawn kg)"
    by (auto simp: d split: if_splits)
  show ?thesis
    using True n by (simp add: r k d keyed_def map_of_snoc del: map_of_append)
next
  case False
  have "r = Inr (d, False) \<or> (\<exists>e. r = Inl e)" and "kg1 = kg"
    using assms False
    by (cases d; auto simp: maybe_generate_key_def lacks_key_def split: option.splits)+
  then show ?thesis using False by (auto simp: keyed_def)
qed

lemma generate_keys_keyed:
  assumes "generate_keys tbl lim uuids kg ds = (kg', ds', fl')"
  shows "length fl' = length ds'
       \<and> list_all2 (keyed (get_pkey tbl)) ds (zip ds' fl')
       \<and> doc_keys (get_pkey tbl) (zip ds' fl') = map uuids [uuids_drawn kg..<uuids_drawn kg']
       \<and> uuids_drawn kg \<le> uuids_drawn kg'"
  using assms
proof (induction ds arbitrary: kg kg' ds' fl')
  case Nil
  then show ?case by simp
next
  case (Cons d ds)
  let ?pk = "get_pkey tbl"
  obtain r kg1 where m: "maybe_generate_key tbl lim uuids kg d = (r, kg1)"
    by (cases "maybe_generate_key tbl lim uuids kg d")
  obtain kg2 ds2 fl2 where g: "generate_keys tbl lim uuids kg1 ds = (kg2, ds2, fl2)"
    by (cases "generate_keys tbl lim uuids kg1 ds") auto
  let ?p = "case r of Inl e \<Rightarrow> (d, False) | Inr p \<Rightarrow> p"
  from maybe_generate_key_keyed [OF m]
  have h: "keyed ?pk d ?p" "doc_keys ?pk [?p] = map uuids [uuids_drawn kg..<uuids_drawn kg1]"
    "uuids_drawn kg \<le> uuids_drawn kg1" by simp_all
  from Cons.IH [OF g]
  have t: "length fl2 = length ds2" "list_all2 (keyed ?pk) ds (zip ds2 fl2)"
    "doc_keys ?pk (zip ds2 fl2) = map uuids [uuids_drawn kg1..<uuids_drawn kg2]"
    "uuids_drawn kg1 \<le> uuids_drawn kg2" by simp_all
  have res: "kg' = kg2" "ds' = fst ?p # ds2" "fl' = snd ?p # fl2"
    using Cons.prems m g by (auto split: sum.splits prod.splits)
  have z: "zip ds' fl' = ?p # zip ds2 fl2" by (simp add: res)
  have dk: "doc_keys ?pk (?p # zip ds2 fl2) = doc_keys ?pk [?p] @ doc_keys ?pk (zip ds2 fl2)"
    by (cases ?p) simp
  have up: "[uuids_drawn kg..<uuids_drawn kg2]
              = [uuids_drawn kg..<uuids_drawn kg1] @ [uuids_drawn kg1..<uuids_drawn kg2]"
    using h(3) t(4) by (rule upt_split)
  have len: "length fl' = length ds'" using t(1) by (simp add: res)
  have all: "list_all2 (keyed ?pk) (d # ds) (zip ds' fl')"
    using h(1) t(2) by (simp add: z)
  have keys: "doc_keys ?pk (zip ds' fl') = map uuids [uuids_drawn kg..<uuids_drawn kg']"
    using h(2) t(3) by (simp only: z dk up res(1) map_append)
  have le: "uuids_drawn kg \<le> uuids_drawn kg'" using h(3) t(4) by (simp add: res(1))
  show ?case using len all keys le by blast
qed

lemma insert_batch_call:
  assumes "insert_batch env t cb dur rc datums (stats, conds, kg) w = (r, w')"
  shows "\<exists>docs flags.
           trace w' = trace w @ [E_batched_insert docs flags cb dur rc]
         \<and> insert_call_of (get_pkey t) cb dur rc datums (docs, flags, cb, dur, rc)
         \<and> (\<forall>stats' conds' kg'. r = Inr (stats', conds', kg') \<longrightarrow>
               doc_keys (get_pkey t) (zip docs flags)
                 = map (uuid_source env) [uuids_drawn kg..<uuids_drawn kg']
               \<and> uuids_drawn kg \<le> uuids_drawn kg')"
proof -
  obtain kg1 docs flags where
    g: "generate_keys t (limits env) (uuid_source env) kg datums = (kg1, docs, flags)"
    by (cases "generate_keys t (limits env) (uuid_source env) kg datums") auto
  from generate_keys_keyed [OF g]
  have k: "length flags = length docs" "list_all2 (keyed (get_pkey t)) datums (zip docs flags)"
    "doc_keys (get_pkey t) (zip docs flags) = map (uuid_source env) [uuids_drawn kg..<uuids_drawn kg1]"
    "uuids_drawn kg \<le> uuids_drawn kg1" by simp_all
  have tr: "trace w' = trace w @ [E_batched_insert docs flags cb dur rc]"
    using assms g by (auto simp: insert_batch_def Let_def split: prod.splits sum.splits)
  have kg: "\<forall>stats' conds' kg'. r = Inr (stats', conds', kg') \<longrightarrow> kg' = kg1"
    using assms g by (auto simp: insert_batch_def Let_def split: prod.splits sum.splits)
  show ?thesis
    using tr k kg by (auto simp: insert_call_of_def)
qed

lemma insert_loop_calls:
  assumes "insert_loop env t cb dur rc ds (stats, conds, kg) w = (Inr (stats', conds', kg'), w')"
  shows "\<exists>tr. trace w' = trace w @ tr
           \<and> list_all2 (insert_call_of (get_pkey t) cb dur rc)
                (takeWhile (\<lambda>batch. batch \<noteq> []) ds) (insert_calls tr)
           \<and> merged_keys (get_pkey t) (insert_calls tr)
               = map (uuid_source env) [uuids_drawn kg..<uuids_drawn kg']
           \<and> uuids_drawn kg \<le> uuids_drawn kg'"
  using assms
proof (induction ds arbitrary: stats conds kg w)
  case Nil
  then have "trace w' = trace w @ [E_next_batch]" "kg' = kg" by auto
  then show ?case
    by (intro exI [of _ "[E_next_batch]"]) (simp add: merged_keys_def)
next
  case (Cons datums rest)
  let ?pk = "get_pkey t"
  show ?case
  proof (cases "datums = []")
    case True
    with Cons.prems have "trace w' = trace w @ [E_next_batch]" "kg' = kg" by auto
    then show ?thesis
      using True by (intro exI [of _ "[E_next_batch]"]) (simp add: merged_keys_def)
  next
    case False
    let ?w1 = "log_event E_next_batch w"
    obtain r w1 where b: "insert_batch env t cb dur rc datums (stats, conds, kg) ?w1 = (r, w1)"
      by (cases "insert_batch env t cb dur rc datums (stats, conds, kg) ?w1")
    from Cons.prems False b obtain s1 c1 kg1 where r: "r = Inr (s1, c1, kg1)"
      and rest: "insert_loop env t cb dur rc rest (s1, c1, kg1) w1 = (Inr (stats', conds', kg'), w')"
      by (cases r) auto
    from insert_batch_call [OF b] r obtain docs flags where
      c: "trace w1 = trace w @ [E_next_batch, E_batched_insert docs flags cb dur rc]"
         "insert_call_of ?pk cb dur rc datums (docs, flags, cb, dur, rc)"
         "doc_keys ?pk (zip docs flags) = map (uuid_source env) [uuids_drawn kg..<uuids_drawn kg1]"
         "uuids_drawn kg \<le> uuids_drawn kg1"
      by auto
    from Cons.IH [OF rest] obtain tr where
      tr: "trace w' = trace w1 @ tr"
          "list_all2 (insert_call_of ?pk cb dur rc) (takeWhile (\<lambda>batch. batch \<noteq> []) rest)
             (insert_calls tr)"
          "merged_keys ?pk (insert_calls tr) = map (uuid_source env) [uuids_drawn kg1..<uuids_drawn kg']"
          "uuids_drawn kg1 \<le> uuids_drawn kg'"
      by blast
    let ?tr = "[E_next_batch, E_batched_insert docs flags cb dur rc] @ tr"
    have up: "[uuids_drawn kg..<uuids_drawn kg']
                = [uuids_drawn kg..<uuids_drawn kg1] @ [uuids_drawn kg1..<uuids_drawn kg']"
      using c(4) tr(4) by (rule upt_split)
    have 1: "trace w' = trace w @ ?tr" using c(1) tr(1) by simp
    have 2: "list_all2 (insert_call_of ?pk cb dur rc)
               (takeWhile (\<lambda>batch. batch \<noteq> []) (datums # rest)) (insert_calls ?tr)"
      using False c(2) tr(2) by simp
    have 3: "merged_keys ?pk (insert_calls ?tr)
               = map (uuid_source env) [uuids_drawn kg..<uuids_drawn kg']"
      using c(3) tr(3) by (simp add: merged_keys_def up)
    have 4: "uuids_drawn kg \<le> uuids_drawn kg'" using c(4) tr(4) by simp
    show ?thesis using 1 2 3 4 by blast
  qed
qed

lemma insert_source_calls:
  assumes "insert_source env t cb dur rc v1 w = (Inr (stats, conds, kg), w')"
  shows "\<exists>tr. trace w' = trace w @ tr
           \<and> list_all2 (insert_call_of (get_pkey t) cb dur rc)
                (insert_batches env v1) (insert_calls tr)
           \<and> merged_keys (get_pkey t) (insert_calls tr)
               = map (uuid_source env) [0..<uuids_drawn kg]"
proof (cases "\<exists>fs. arg_as_datum v1 = Inr (R_OBJECT fs)")
  case True
  then obtain fs where d: "arg_as_datum v1 = Inr (R_OBJECT fs)" by blast
  then have conv: "is_convertible_DATUM v1" by (cases v1) auto
  have b: "insert_batch env t cb dur rc [R_OBJECT fs] (new_stats_object, [], keygen_init) w
             = (Inr (stats, conds, kg), w')"
    using assms d conv by (simp add: insert_source_def Let_def)
  from insert_batch_call [OF b] obtain docs flags where
    c: "trace w' = trace w @ [E_batched_insert docs flags cb dur rc]"
       "insert_call_of (get_pkey t) cb dur rc [R_OBJECT fs] (docs, flags, cb, dur, rc)"
       "doc_keys (get_pkey t) (zip docs flags)
          = map (uuid_source env) [uuids_drawn keygen_init..<uuids_drawn kg]"
    by auto
  have "list_all2 (insert_call_of (get_pkey t) cb dur rc) (insert_batches env v1)
          (insert_calls [E_batched_insert docs flags cb dur rc])"
    using c(2) d by (simp add: insert_batches_def)
  moreover have "merged_keys (get_pkey t) (insert_calls [E_batched_insert docs flags cb dur rc])
                   = map (uuid_source env) [0..<uuids_drawn kg]"
    using c(3) by (simp add: merged_keys_def keygen_init_def)
  ultimately show ?thesis using c(1) by blast
next
  case False
  then have single: "(if is_convertible_DATUM v1
                    then (case arg_as_datum v1 of
                            Inr (R_OBJECT fs) \<Rightarrow> Some (R_OBJECT fs)
                          | _ \<Rightarrow> None)
                    else None) = None"
    by (auto split: sum.splits datum_t.splits)
  from assms single obtain ds where s: "as_seq (batching env) v1 = Inr ds"
    and l: "insert_loop env t cb dur rc ds (new_stats_object, [], keygen_init) w
              = (Inr (stats, conds, kg), w')"
    by (auto simp: insert_source_def Let_def split: sum.splits)
  have ib: "insert_batches env v1 = takeWhile (\<lambda>batch. batch \<noteq> []) ds"
    using False s by (auto simp: insert_batches_def split: sum.splits datum_t.splits)
  from insert_loop_calls [OF l] show ?thesis
    by (simp add: ib keygen_init_def)
qed

subsection \<open>Insert: the statistics are the merged replies\<close>

lemma merge_fields_conds:
  "merge_fields acc r stats_merge lim cs = Inr (d, cs') \<Longrightarrow> cs' = cs"
proof (induction r arbitrary: acc)
  case Nil
  then show ?case by simp
next
  case (Cons p r)
  obtain key v where p: "p = (key, v)" by (cases p)
  show ?case
  proof (cases "map_of acc key")
    case None
    then show ?thesis using Cons by (simp add: p)
  next
    case (Some x)
    from Cons.prems Some obtain m cs1 where
      m: "stats_merge key x v lim cs = Inr (m, cs1)"
      and run: "merge_fields (builder_overwrite acc key m) r stats_merge lim cs1 = Inr (d, cs')"
      by (auto simp: p split: sum.splits)
    from m have "cs1 = cs"
      by (auto simp: stats_merge_def split: if_splits datum_t.splits)
    with run Cons.IH show ?thesis by simp
  qed
qed

lemma datum_merge_conds:
  "datum_merge a b stats_merge lim cs = Inr (ab, cs') \<Longrightarrow> cs' = cs"
  by (cases a; cases b) (auto split: sum.splits dest: merge_fields_conds)

lemma datum_merge_object:
  "datum_merge a b f lim cs = Inr (ab, cs') \<Longrightarrow> \<exists>fs. ab = R_OBJECT fs"
  by (cases a; cases b) (auto split: sum.splits)

lemma insert_batch_reply:
  assumes "insert_batch env t cb dur rc datums (stats, conds, kg) w = (Inr (stats', conds', kg'), w')"
  shows "\<exists>docs flags reply.
           trace w' = trace w @ [E_batched_insert docs flags cb dur rc]
         \<and> batched_insert t (engine w) docs flags cb dur rc = (reply, engine w')
         \<and> datum_merge stats reply stats_merge (limits env) conds = Inr (stats', conds')"
proof -
  obtain kg1 docs flags where
    g: "generate_keys t (limits env) (uuid_source env) kg datums = (kg1, docs, flags)"
    by (cases "generate_keys t (limits env) (uuid_source env) kg datums") auto
  obtain reply e1 where r: "batched_insert t (engine w) docs flags cb dur rc = (reply, e1)"
    by (cases "batched_insert t (engine w) docs flags cb dur rc")
  have "trace w' = trace w @ [E_batched_insert docs flags cb dur rc]" "engine w' = e1"
    "datum_merge stats reply stats_merge (limits env) conds = Inr (stats', conds')"
    using assms g r by (auto simp: insert_batch_def Let_def log_event_def split: sum.splits)
  then show ?thesis using r by blast
qed

lemma insert_loop_replies:
  assumes "insert_loop env t cb dur rc ds (stats, conds, kg) w = (Inr (stats', conds', kg'), w')"
  shows "\<exists>tr. trace w' = trace w @ tr
           \<and> merge_each (fst (insert_replies t (engine w) (insert_calls tr))) (limits env)
                (stats, conds) = Inr (stats', conds')
           \<and> engine w' = snd (insert_replies t (engine w) (insert_calls tr))"
  using assms
proof (induction ds arbitrary: stats conds kg w)
  case Nil
  then have "trace w' = trace w @ [E_next_batch]" "stats' = stats" "conds' = conds"
    "engine w' = engine w" by auto
  then show ?case by (intro exI [of _ "[E_next_batch]"]) simp
next
  case (Cons datums rest)
  show ?case
  proof (cases "datums = []")
    case True
    with Cons.prems have "trace w' = trace w @ [E_next_batch]" "stats' = stats" "conds' = conds"
      "engine w' = engine w" by auto
    then show ?thesis by (intro exI [of _ "[E_next_batch]"]) simp
  next
    case False
    let ?w1 = "log_event E_next_batch w"
    obtain r w1 where b: "insert_batch env t cb dur rc datums (stats, conds, kg) ?w1 = (r, w1)"
      by (cases "insert_batch env t cb dur rc datums (stats, conds, kg) ?w1")
    from Cons.prems False b obtain s1 c1 kg1 where r: "r = Inr (s1, c1, kg1)"
      and rest: "insert_loop env t cb dur rc rest (s1, c1, kg1) w1 = (Inr (stats', conds', kg'), w')"
      by (cases r) auto
    from insert_batch_reply [OF b [unfolded r]] obtain docs flags reply where
      c: "trace w1 = trace w @ [E_next_batch, E_batched_insert docs flags cb dur rc]"
         "batched_insert t (engine w) docs flags cb dur rc = (reply, engine w1)"
         "datum_merge stats reply stats_merge (limits env) conds = Inr (s1, c1)"
      by auto
    from Cons.IH [OF rest] obtain tr where
      tr: "trace w' = trace w1 @ tr"
          "merge_each (fst (insert_replies t (engine w1) (insert_calls tr))) (limits env) (s1, c1)
             = Inr (stats', conds')"
          "engine w' = snd (insert_replies t (engine w1) (insert_calls tr))"
      by blast
    let ?tr = "[E_next_batch, E_batched_insert docs flags cb dur rc] @ tr"
    obtain replies e2 where
      ir: "insert_replies t (engine w1) (insert_calls tr) = (replies, e2)"
      by (cases "insert_replies t (engine w1) (insert_calls tr)")
    have 1: "trace w' = trace w @ ?tr" using c(1) tr(1) by simp
    have 2: "merge_each (fst (insert_replies t (engine w) (insert_calls ?tr))) (limits env)
               (stats, conds) = Inr (stats', conds')"
      using c(2) c(3) tr(2) ir by simp
    have 3: "engine w' = snd (insert_replies t (engine w) (insert_calls ?tr))"
      using c(2) tr(3) ir by simp
    show ?thesis using 1 2 3 by blast
  qed
qed

lemma insert_source_replies:
  assumes "insert_source env t cb dur rc v1 w = (Inr (stats, conds, kg), w')"
  shows "\<exists>tr. trace w' = trace w @ tr
           \<and> merge_each (fst (insert_replies t (engine w) (insert_calls tr))) (limits env)
                (new_stats_object, []) = Inr (stats, conds)
           \<and> engine w' = snd (insert_replies t (engine w) (insert_calls tr))"
proof (cases "\<exists>fs. arg_as_datum v1 = Inr (R_OBJECT fs)")
  case True
  then obtain fs where d: "arg_as_datum v1 = Inr (R_OBJECT fs)" by blast
  then have conv: "is_convertible_DATUM v1" by (cases v1) auto
  have b: "insert_batch env t cb dur rc [R_OBJECT fs] (new_stats_object, [], keygen_init) w
             = (Inr (stats, conds, kg), w')"
    using assms d conv by (simp add: insert_source_def Let_def)
  from insert_batch_reply [OF b] obtain docs flags reply where
    c: "trace w' = trace w @ [E_batched_insert docs flags cb dur rc]"
       "batched_insert t (engine w) docs flags cb dur rc = (reply, engine w')"
       "datum_merge new_stats_object reply stats_merge (limits env) [] = Inr (stats, conds)"
    by auto
  show ?thesis
    using c by (intro exI [of _ "[E_batched_insert docs flags cb dur rc]"]) simp
next
  case False
  then have single: "(if is_convertible_DATUM v1
                    then (case arg_as_datum v1 of
                            Inr (R_OBJECT fs) \<Rightarrow> Some (R_OBJECT fs)
                          | _ \<Rightarrow> None)
                    else None) = None"
    by (auto split: sum.splits datum_t.splits)
  from assms single obtain ds where
    l: "insert_loop env t cb dur rc ds (new_stats_object, [], keygen_init) w
              = (Inr (stats, conds, kg), w')"
    by (auto simp: insert_source_def Let_def split: sum.splits)
  from insert_loop_replies [OF l] show ?thesis .
qed

lemma merge_each_conds:
  "merge_each xs lim (s, cs) = Inr (s', cs') \<Longrightarrow> cs' = cs"
proof (induction xs arbitrary: s)
  case Nil
  then show ?case by simp
next
  case (Cons x xs)
  from Cons.prems obtain s1 c1 where
    m: "datum_merge s x stats_merge lim cs = Inr (s1, c1)"
    and r: "merge_each xs lim (s1, c1) = Inr (s', cs')"
    by (auto split: sum.splits)
  from datum_merge_conds [OF m] r Cons.IH show ?case by simp
qed

lemma merge_each_object:
  "merge_each xs lim (R_OBJECT fs, cs) = Inr (s', cs') \<Longrightarrow> \<exists>fs'. s' = R_OBJECT fs'"
proof (induction xs arbitrary: fs cs)
  case Nil
  then show ?case by auto
next
  case (Cons x xs)
  from Cons.prems obtain s1 c1 where
    m: "datum_merge (R_OBJECT fs) x stats_merge lim cs = Inr (s1, c1)"
    and r: "merge_each xs lim (s1, c1) = Inr (s', cs')"
    by (auto split: sum.splits)
  from datum_merge_object [OF m] obtain f1 where "s1 = R_OBJECT f1" by blast
  with r Cons.IH show ?case by simp
qed

lemma insert_totals_plain:
  assumes "insert_totals lim (R_OBJECT fs, [], kg) = Inr obj1"
  shows "obj1 = (if generated_keys kg = [] then fs
                 else fs @ [(''generated_keys'', R_ARRAY (map R_STR (generated_keys kg)))])"
proof (cases "generated_keys kg = []")
  case True
  then show ?thesis using assms by (simp add: insert_totals_def)
next
  case False
  from assms False obtain stats' conds' where
    m: "datum_merge (R_OBJECT fs) (R_OBJECT (snd (builder_add [] ''generated_keys''
              (R_ARRAY (map R_STR (generated_keys kg)))))) pure_merge lim [] = Inr (stats', conds')"
    by (auto simp: insert_totals_def split: sum.splits)
  from fold_generated_keys [OF m]
  have s: "stats' = R_OBJECT (fs @ [(''generated_keys'', R_ARRAY (map R_STR (generated_keys kg)))])"
    "conds' = []" by auto
  show ?thesis using assms False m s by (simp add: insert_totals_def)
qed

lemma length_merged_keys:
  "merged_keys pk calls = map uuids [0..<n] \<Longrightarrow> length (merged_keys pk calls) = n"
  by simp

text \<open>
  C2. The key generator on a document that lacks the primary-key field always merges
  a key into it and sets the flag; the key goes into \<open>generated_keys\<close> while the
  collection is shorter than the limit and is counted in \<open>keys_skipped\<close> otherwise.
  For a whole insert that returns, with the options as parsed: the log holds one call
  of \<open>batched_insert\<close> for each batch taken from the source, in order, and the call
  hands over every document of the batch, a document that lacked the key with the key
  merged in and its flag set, any other document as it was; the keys merged in are the
  keys drawn from the source, in order; \<open>generated_keys\<close> is their first part, cut at
  the limit, so it is never longer than the limit; the skip count is the number of
  the remaining ones (as a \<open>size_t\<close>), so the collection is full whenever a key was
  skipped; the engine is left as these calls leave it, one after the other, and the
  statistics are the replies of these calls merged in call order into a fresh
  statistics object, which raises no condition; the totals are these statistics, with
  a non-empty collection added as the field \<open>generated_keys\<close>, which is then the
  \<open>generated_keys\<close> field of the result; and the skip count changes the result by at
  most one warning, the aggregated one: with no skipped key the result is the totals,
  with skipped keys its warnings are those of the totals with the one message added,
  unless the same text was already there.
\<close>

theorem generated_keys_bounded:
  "(map_of fs (get_pkey tbl) = None \<longrightarrow>
      maybe_generate_key tbl lim uuids kg0 (R_OBJECT fs) =
        (Inr (R_OBJECT (fs @ [(get_pkey tbl, R_STR (uuids (uuids_drawn kg0)))]), True),
         (if length (generated_keys kg0) < array_size_limit lim
          then kg0\<lparr>uuids_drawn := Suc (uuids_drawn kg0),
                    generated_keys := generated_keys kg0 @ [uuids (uuids_drawn kg0)]\<rparr>
          else kg0\<lparr>uuids_drawn := Suc (uuids_drawn kg0), keys_skipped := keys_skipped kg0 + 1\<rparr>)))
   \<and> (insert_term_eval_impl env optarg bt v0 v1 w = (Inr obj, w') \<longrightarrow>
        (\<exists>t cb dur rc stats conds kg tr obj1 obj2 fs0.
            as_table v0 = Inr t
          \<and> parse_return_changes optarg bt = Inr rc
          \<and> parse_conflict_optarg (optarg ''conflict'') = Inr cb
          \<and> parse_durability_optarg (optarg ''durability'') = Inr dur
          \<and> insert_source env t cb dur rc v1 w = (Inr (stats, conds, kg), w')
          \<and> trace w' = trace w @ tr
          \<and> list_all2 (insert_call_of (get_pkey t) cb dur rc)
               (insert_batches env v1) (insert_calls tr)
          \<and> merged_keys (get_pkey t) (insert_calls tr)
              = map (uuid_source env) [0..<length (merged_keys (get_pkey t) (insert_calls tr))]
          \<and> generated_keys kg
              = take (array_size_limit (limits env)) (merged_keys (get_pkey t) (insert_calls tr))
          \<and> keys_skipped kg
              = of_nat (length (merged_keys (get_pkey t) (insert_calls tr))
                        - array_size_limit (limits env))
          \<and> length (generated_keys kg) \<le> array_size_limit (limits env)
          \<and> (keys_skipped kg > 0 \<longrightarrow> length (generated_keys kg) = array_size_limit (limits env))
          \<and> (length (merged_keys (get_pkey t) (insert_calls tr)) < 2 ^ 64 \<longrightarrow>
               length (generated_keys kg) + unat (keys_skipped kg)
                 = length (merged_keys (get_pkey t) (insert_calls tr)))
          \<and> engine w' = snd (insert_replies t (engine w) (insert_calls tr))
          \<and> merge_each (fst (insert_replies t (engine w) (insert_calls tr))) (limits env)
                (new_stats_object, []) = Inr (stats, conds)
          \<and> conds = []
          \<and> stats = R_OBJECT fs0
          \<and> obj1 = (if generated_keys kg = [] then fs0
                     else fs0 @ [(''generated_keys'', R_ARRAY (map R_STR (generated_keys kg)))])
          \<and> (generated_keys kg \<noteq> [] \<longrightarrow>
               get_field obj ''generated_keys'' = Inr (R_ARRAY (map R_STR (generated_keys kg))))
          \<and> insert_totals (limits env) (stats, conds, kg) = Inr obj1
          \<and> obj = R_OBJECT obj2
          \<and> (keys_skipped kg = 0 \<longrightarrow> obj2 = obj1)
          \<and> (keys_skipped kg > 0 \<longrightarrow>
               R_STR (too_many_keys_msg
                        (unat (keys_skipped kg + of_nat (length (generated_keys kg))))
                        (length (generated_keys kg))) \<in> set (warnings_of obj2)
               \<and> (warnings_of obj2 = warnings_of obj1
                  \<or> warnings_of obj2 = warnings_of obj1 @
                       [R_STR (too_many_keys_msg
                                 (unat (keys_skipped kg + of_nat (length (generated_keys kg))))
                                 (length (generated_keys kg)))]))))"
proof (intro conjI impI)
  assume "map_of fs (get_pkey tbl) = None"
  then show "maybe_generate_key tbl lim uuids kg0 (R_OBJECT fs) =
        (Inr (R_OBJECT (fs @ [(get_pkey tbl, R_STR (uuids (uuids_drawn kg0)))]), True),
         (if length (generated_keys kg0) < array_size_limit lim
          then kg0\<lparr>uuids_drawn := Suc (uuids_drawn kg0),
                    generated_keys := generated_keys kg0 @ [uuids (uuids_drawn kg0)]\<rparr>
          else kg0\<lparr>uuids_drawn := Suc (uuids_drawn kg0), keys_skipped := keys_skipped kg0 + 1\<rparr>))"
    by (rule maybe_generate_key_absent)
next
  assume run: "insert_term_eval_impl env optarg bt v0 v1 w = (Inr obj, w')"
  then obtain t cb dur rc stats conds kg where
    opts: "as_table v0 = Inr t" "parse_return_changes optarg bt = Inr rc"
      "parse_conflict_optarg (optarg ''conflict'') = Inr cb"
      "parse_durability_optarg (optarg ''durability'') = Inr dur"
    and src: "insert_source env t cb dur rc v1 w = (Inr (stats, conds, kg), w')"
    and fin: "insert_finish (limits env) (stats, conds, kg) = Inr obj"
    by (auto simp: insert_term_eval_impl_def split: sum.splits prod.splits)
  let ?lim = "limits env"
  let ?msg = "too_many_keys_msg (unat (keys_skipped kg + of_nat (length (generated_keys kg))))
                (length (generated_keys kg))"
  from fin obtain obj1 obj2 where
    tot: "insert_totals ?lim (stats, conds, kg) = Inr obj1"
    and last: "(if keys_skipped kg > 0 then add_warning obj1 ?msg ?lim else Inr obj1) = Inr obj2"
    and obj: "obj = R_OBJECT obj2"
    by (auto simp: insert_finish_def split: sum.splits)
  from insert_source_calls [OF src] obtain tr where
    tr: "trace w' = trace w @ tr"
        "list_all2 (insert_call_of (get_pkey t) cb dur rc) (insert_batches env v1) (insert_calls tr)"
        "merged_keys (get_pkey t) (insert_calls tr) = map (uuid_source env) [0..<uuids_drawn kg]"
    by blast
  let ?mk = "merged_keys (get_pkey t) (insert_calls tr)"
  have len: "length ?mk = uuids_drawn kg" using tr(3) by simp
  have inv: "keygen_inv ?lim (uuid_source env) kg"
    using insert_source_inv [OF src] .
  note b = keygen_inv_bounds [OF inv]
  have m1: "?mk = map (uuid_source env) [0..<length ?mk]" using tr(3) len by simp
  have m2: "generated_keys kg = take (array_size_limit ?lim) ?mk" using b(3) tr(3) by simp
  have m3: "keys_skipped kg = of_nat (length ?mk - array_size_limit ?lim)"
    using b(4) len by simp
  have m4: "length ?mk < 2 ^ 64 \<longrightarrow> length (generated_keys kg) + unat (keys_skipped kg) = length ?mk"
    using b(5) len by simp
  have m5: "keys_skipped kg > 0 \<longrightarrow> length (generated_keys kg) = array_size_limit ?lim"
    using b(2) by blast
  from insert_source_replies [OF src] obtain tr2 where
    tr2: "trace w' = trace w @ tr2"
         "merge_each (fst (insert_replies t (engine w) (insert_calls tr2))) (limits env)
            (new_stats_object, []) = Inr (stats, conds)"
         "engine w' = snd (insert_replies t (engine w) (insert_calls tr2))"
    by blast
  have same: "tr2 = tr" using tr(1) tr2(1) by simp
  note r2 = tr2(2) [unfolded same]
  note r3 = tr2(3) [unfolded same]
  have r4: "conds = []" using merge_each_conds [OF r2] by simp
  obtain fs0 where r5: "stats = R_OBJECT fs0"
    using merge_each_object [OF r2 [unfolded new_stats_object_def]] by blast
  have r6: "obj1 = (if generated_keys kg = [] then fs0
                    else fs0 @ [(''generated_keys'', R_ARRAY (map R_STR (generated_keys kg)))])"
    using insert_totals_plain [OF tot [unfolded r4 r5]] .
  have zero: "keys_skipped kg = 0 \<longrightarrow> obj2 = obj1"
    using last by (auto split: if_splits)
  have pos: "keys_skipped kg > 0 \<longrightarrow>
               R_STR ?msg \<in> set (warnings_of obj2)
               \<and> (warnings_of obj2 = warnings_of obj1
                  \<or> warnings_of obj2 = warnings_of obj1 @ [R_STR ?msg])"
    using last add_warning_effect(1,2) [of obj1 ?msg ?lim obj2] by auto
  have other: "map_of obj2 ''generated_keys'' = map_of obj1 ''generated_keys''"
    using last add_warning_effect(3) [of obj1 ?msg ?lim obj2 "''generated_keys''"]
    by (auto split: if_splits)
  have gk: "generated_keys kg \<noteq> [] \<longrightarrow>
               get_field obj ''generated_keys'' = Inr (R_ARRAY (map R_STR (generated_keys kg)))"
    using insert_totals_generated_keys [OF tot] other obj by simp
  show "\<exists>t cb dur rc stats conds kg tr obj1 obj2 fs0.
            as_table v0 = Inr t
          \<and> parse_return_changes optarg bt = Inr rc
          \<and> parse_conflict_optarg (optarg ''conflict'') = Inr cb
          \<and> parse_durability_optarg (optarg ''durability'') = Inr dur
          \<and> insert_source env t cb dur rc v1 w = (Inr (stats, conds, kg), w')
          \<and> trace w' = trace w @ tr
          \<and> list_all2 (insert_call_of (get_pkey t) cb dur rc)
               (insert_batches env v1) (insert_calls tr)
          \<and> merged_keys (get_pkey t) (insert_calls tr)
              = map (uuid_source env) [0..<length (merged_keys (get_pkey t) (insert_calls tr))]
          \<and> generated_keys kg
              = take (array_size_limit (limits env)) (merged_keys (get_pkey t) (insert_calls tr))
          \<and> keys_skipped kg
              = of_nat (length (merged_keys (get_pkey t) (insert_calls tr))
                        - array_size_limit (limits env))
          \<and> length (generated_keys kg) \<le> array_size_limit (limits env)
          \<and> (keys_skipped kg > 0 \<longrightarrow> length (generated_keys kg) = array_size_limit (limits env))
          \<and> (length (merged_keys (get_pkey t) (insert_calls tr)) < 2 ^ 64 \<longrightarrow>
               length (generated_keys kg) + unat (keys_skipped kg)
                 = length (merged_keys (get_pkey t) (insert_calls tr)))
          \<and> engine w' = snd (insert_replies t (engine w) (insert_calls tr))
          \<and> merge_each (fst (insert_replies t (engine w) (insert_calls tr))) (limits env)
                (new_stats_object, []) = Inr (stats, conds)
          \<and> conds = []
          \<and> stats = R_OBJECT fs0
          \<and> obj1 = (if generated_keys kg = [] then fs0
                     else fs0 @ [(''generated_keys'', R_ARRAY (map R_STR (generated_keys kg)))])
          \<and> (generated_keys kg \<noteq> [] \<longrightarrow>
               get_field obj ''generated_keys'' = Inr (R_ARRAY (map R_STR (generated_keys kg))))
          \<and> insert_totals (limits env) (stats, conds, kg) = Inr obj1
          \<and> obj = R_OBJECT obj2
          \<and> (keys_skipped kg = 0 \<longrightarrow> obj2 = obj1)
          \<and> (keys_skipped kg > 0 \<longrightarrow>
               R_STR (too_many_keys_msg
                        (unat (keys_skipped kg + of_nat (length (generated_keys kg))))
                        (length (generated_keys kg))) \<in> set (warnings_of obj2)
               \<and> (warnings_of obj2 = warnings_of obj1
                  \<or> warnings_of obj2 = warnings_of obj1 @
                       [R_STR (too_many_keys_msg
                                 (unat (keys_skipped kg + of_nat (length (generated_keys kg))))
                                 (length (generated_keys kg)))]))"
    using opts src tr(1) tr(2) m1 m2 m3 b(1) m5 m4 r3 r2 r4 r5 r6 gk tot obj zero pos
    by - (rule exI [of _ t], rule exI [of _ cb], rule exI [of _ dur], rule exI [of _ rc],
          rule exI [of _ stats], rule exI [of _ conds], rule exI [of _ kg], rule exI [of _ tr],
          rule exI [of _ obj1], rule exI [of _ obj2], rule exI [of _ fs0], blast)
qed

lemma insert_run_limit_2:
  "insert_term_eval_impl (stub_env 2) Map.empty 7 (Arg_table 1 stub_table)
      (Arg_datum 2 (R_ARRAY [R_OBJECT [], R_OBJECT [(''id'', R_NUM 1)], R_OBJECT [], R_OBJECT []]))
      stub_world
   = (Inr (R_OBJECT
        [(''inserted'', R_NUM 4), (''deleted'', R_NUM 0), (''skipped'', R_NUM 0),
         (''replaced'', R_NUM 0), (''unchanged'', R_NUM 0), (''errors'', R_NUM 0),
         (''generated_keys'', R_ARRAY [R_STR ''k0'', R_STR ''k1'']),
         (''warnings'', R_ARRAY [R_STR ''Too many generated keys (3), array truncated to 2.''])]),
      \<lparr>engine = 1,
       trace = [E_next_batch,
                E_batched_insert
                  [R_OBJECT [(''id'', R_STR ''k0'')], R_OBJECT [(''id'', R_NUM 1)],
                   R_OBJECT [(''id'', R_STR ''k1'')], R_OBJECT [(''id'', R_STR ''k2'')]]
                  [True, False, True, True] ERROR DURABILITY_REQUIREMENT_DEFAULT NO,
                E_next_batch]\<rparr>)"
  by code_simp

lemma insert_replies_limit_2:
  "merge_each
     (fst (insert_replies stub_table 0
        [([R_OBJECT [(''id'', R_STR ''k0'')], R_OBJECT [(''id'', R_NUM 1)],
           R_OBJECT [(''id'', R_STR ''k1'')], R_OBJECT [(''id'', R_STR ''k2'')]],
          [True, False, True, True], ERROR, DURABILITY_REQUIREMENT_DEFAULT, NO)]))
     \<lparr>array_size_limit = 2\<rparr> (new_stats_object, [])
   = Inr (R_OBJECT
            [(''inserted'', R_NUM 4), (''deleted'', R_NUM 0), (''skipped'', R_NUM 0),
             (''replaced'', R_NUM 0), (''unchanged'', R_NUM 0), (''errors'', R_NUM 0)], [])"
  by code_simp

theorem generated_keys_bounded_witness:
  "map_of [] (get_pkey stub_table) = None
   \<and> maybe_generate_key stub_table \<lparr>array_size_limit = 0\<rparr> (\<lambda>i. ''k'' @ show_nat i)
        keygen_init (R_OBJECT [])
      = (Inr (R_OBJECT [(''id'', R_STR ''k0'')], True),
         \<lparr>generated_keys = [], keys_skipped = 1, uuids_drawn = 1\<rparr>)
   \<and> insert_term_eval_impl (stub_env 2) Map.empty 7 (Arg_table 1 stub_table)
        (Arg_datum 2 (R_ARRAY [R_OBJECT [], R_OBJECT [(''id'', R_NUM 1)], R_OBJECT [], R_OBJECT []]))
        stub_world
      = (Inr (R_OBJECT
          [(''inserted'', R_NUM 4), (''deleted'', R_NUM 0), (''skipped'', R_NUM 0),
           (''replaced'', R_NUM 0), (''unchanged'', R_NUM 0), (''errors'', R_NUM 0),
           (''generated_keys'', R_ARRAY [R_STR ''k0'', R_STR ''k1'']),
           (''warnings'', R_ARRAY [R_STR ''Too many generated keys (3), array truncated to 2.''])]),
         \<lparr>engine = 1,
          trace = [E_next_batch,
                   E_batched_insert
                     [R_OBJECT [(''id'', R_STR ''k0'')], R_OBJECT [(''id'', R_NUM 1)],
                      R_OBJECT [(''id'', R_STR ''k1'')], R_OBJECT [(''id'', R_STR ''k2'')]]
                     [True, False, True, True] ERROR DURABILITY_REQUIREMENT_DEFAULT NO,
                   E_next_batch]\<rparr>)
   \<and> list_all2 (insert_call_of ''id'' ERROR DURABILITY_REQUIREMENT_DEFAULT NO)
        [[R_OBJECT [], R_OBJECT [(''id'', R_NUM 1)], R_OBJECT [], R_OBJECT []]]
        [([R_OBJECT [(''id'', R_STR ''k0'')], R_OBJECT [(''id'', R_NUM 1)],
           R_OBJECT [(''id'', R_STR ''k1'')], R_OBJECT [(''id'', R_STR ''k2'')]],
          [True, False, True, True], ERROR, DURABILITY_REQUIREMENT_DEFAULT, NO)]
   \<and> (\<exists>stats conds kg.
         insert_source (stub_env 2) stub_table ERROR DURABILITY_REQUIREMENT_DEFAULT NO
           (Arg_datum 2 (R_ARRAY [R_OBJECT [], R_OBJECT [(''id'', R_NUM 1)], R_OBJECT [], R_OBJECT []]))
           stub_world
         = (Inr (stats, conds, kg),
            \<lparr>engine = 1,
             trace = [E_next_batch,
                      E_batched_insert
                        [R_OBJECT [(''id'', R_STR ''k0'')], R_OBJECT [(''id'', R_NUM 1)],
                         R_OBJECT [(''id'', R_STR ''k1'')], R_OBJECT [(''id'', R_STR ''k2'')]]
                        [True, False, True, True] ERROR DURABILITY_REQUIREMENT_DEFAULT NO,
                      E_next_batch]\<rparr>)
       \<and> stats = R_OBJECT
            [(''inserted'', R_NUM 4), (''deleted'', R_NUM 0), (''skipped'', R_NUM 0),
             (''replaced'', R_NUM 0), (''unchanged'', R_NUM 0), (''errors'', R_NUM 0)]
       \<and> conds = []
       \<and> generated_keys kg = [''k0'', ''k1''] \<and> keys_skipped kg = 1)"
proof -
  let ?v1 = "Arg_datum 2 (R_ARRAY [R_OBJECT [], R_OBJECT [(''id'', R_NUM 1)], R_OBJECT [], R_OBJECT []])"
  let ?obj = "R_OBJECT
          [(''inserted'', R_NUM 4), (''deleted'', R_NUM 0), (''skipped'', R_NUM 0),
           (''replaced'', R_NUM 0), (''unchanged'', R_NUM 0), (''errors'', R_NUM 0),
           (''generated_keys'', R_ARRAY [R_STR ''k0'', R_STR ''k1'']),
           (''warnings'', R_ARRAY [R_STR ''Too many generated keys (3), array truncated to 2.''])]"
  let ?call = "E_batched_insert
                  [R_OBJECT [(''id'', R_STR ''k0'')], R_OBJECT [(''id'', R_NUM 1)],
                   R_OBJECT [(''id'', R_STR ''k1'')], R_OBJECT [(''id'', R_STR ''k2'')]]
                  [True, False, True, True] ERROR DURABILITY_REQUIREMENT_DEFAULT NO"
  let ?w' = "\<lparr>engine = 1::nat, trace = [E_next_batch, ?call, E_next_batch]\<rparr>"
  note T = generated_keys_bounded [of "[]" stub_table "\<lparr>array_size_limit = 0\<rparr>"
      "\<lambda>i. ''k'' @ show_nat i" keygen_init "stub_env 2" Map.empty 7 "Arg_table 1 stub_table"
      ?v1 stub_world ?obj ?w']
  have h: "map_of [] (get_pkey stub_table) = None" by simp
  have k0: "show_nat 0 = ''0''" by (simp add: show_nat_digit)
  from T h have A: "maybe_generate_key stub_table \<lparr>array_size_limit = 0\<rparr> (\<lambda>i. ''k'' @ show_nat i)
        keygen_init (R_OBJECT [])
      = (Inr (R_OBJECT [(''id'', R_STR ''k0'')], True),
         \<lparr>generated_keys = [], keys_skipped = 1, uuids_drawn = 1\<rparr>)"
    by (simp add: keygen_init_def stub_table_def k0)
  from T [THEN conjunct2, THEN mp, OF insert_run_limit_2] show ?thesis
  proof (elim exE conjE)
    fix t cb dur rc stats conds kg tr obj1 obj2 fs0
    assume B: "as_table (Arg_table 1 stub_table) = Inr t"
       "parse_return_changes Map.empty 7 = Inr rc"
       "parse_conflict_optarg (Map.empty ''conflict'') = Inr cb"
       "parse_durability_optarg (Map.empty ''durability'') = Inr dur"
       "insert_source (stub_env 2) t cb dur rc ?v1 stub_world = (Inr (stats, conds, kg), ?w')"
       "trace ?w' = trace stub_world @ tr"
       "list_all2 (insert_call_of (get_pkey t) cb dur rc)
               (insert_batches (stub_env 2) ?v1) (insert_calls tr)"
       "generated_keys kg
              = take (array_size_limit (limits (stub_env 2))) (merged_keys (get_pkey t) (insert_calls tr))"
       "keys_skipped kg
              = of_nat (length (merged_keys (get_pkey t) (insert_calls tr))
                        - array_size_limit (limits (stub_env 2)))"
       "merge_each (fst (insert_replies t (engine stub_world) (insert_calls tr)))
          (limits (stub_env 2)) (new_stats_object, []) = Inr (stats, conds)"
  have t: "t = stub_table" using B(1) by simp
  have rc: "rc = NO" using B(2) by (simp add: parse_return_changes_def)
  have cb: "cb = ERROR" using B(3) by (simp add: parse_conflict_optarg_def)
  have dur: "dur = DURABILITY_REQUIREMENT_DEFAULT" using B(4) by (simp add: parse_durability_optarg_def)
  have tr: "tr = [E_next_batch, ?call, E_next_batch]" using B(6) by (simp add: stub_world_def)
  have pk: "get_pkey stub_table = ''id''" by (simp add: stub_table_def)
  have ib: "insert_batches (stub_env 2) ?v1
              = [[R_OBJECT [], R_OBJECT [(''id'', R_NUM 1)], R_OBJECT [], R_OBJECT []]]"
    by (simp add: insert_batches_def stub_env_def)
  have mk: "merged_keys ''id''
              [([R_OBJECT [(''id'', R_STR ''k0'')], R_OBJECT [(''id'', R_NUM 1)],
                 R_OBJECT [(''id'', R_STR ''k1'')], R_OBJECT [(''id'', R_STR ''k2'')]],
                [True, False, True, True], ERROR, DURABILITY_REQUIREMENT_DEFAULT, NO)]
              = [''k0'', ''k1'', ''k2'']"
    by (simp add: merged_keys_def)
  have lim: "array_size_limit (limits (stub_env 2)) = 2" by (simp add: stub_env_def)
  have C: "list_all2 (insert_call_of ''id'' ERROR DURABILITY_REQUIREMENT_DEFAULT NO)
        [[R_OBJECT [], R_OBJECT [(''id'', R_NUM 1)], R_OBJECT [], R_OBJECT []]]
        [([R_OBJECT [(''id'', R_STR ''k0'')], R_OBJECT [(''id'', R_NUM 1)],
           R_OBJECT [(''id'', R_STR ''k1'')], R_OBJECT [(''id'', R_STR ''k2'')]],
          [True, False, True, True], ERROR, DURABILITY_REQUIREMENT_DEFAULT, NO)]"
    using B(7) by (simp add: t rc cb dur tr pk ib)
  have D: "generated_keys kg = [''k0'', ''k1'']" "keys_skipped kg = 1"
    using B(8) B(9) by (simp_all add: t tr pk mk lim)
  have F: "stats = R_OBJECT
            [(''inserted'', R_NUM 4), (''deleted'', R_NUM 0), (''skipped'', R_NUM 0),
             (''replaced'', R_NUM 0), (''unchanged'', R_NUM 0), (''errors'', R_NUM 0)]"
    "conds = []"
    using B(10) insert_replies_limit_2
    by (simp_all add: t tr stub_world_def stub_env_def)
  have E: "insert_source (stub_env 2) stub_table ERROR DURABILITY_REQUIREMENT_DEFAULT NO ?v1
             stub_world = (Inr (stats, conds, kg), ?w')"
    using B(5) by (simp add: t rc cb dur)
  show ?thesis
    using h A insert_run_limit_2 C D E F by blast
qed
qed

subsection \<open>Insert: three empty documents under a limit of 0\<close>

lemma is_stats_object_new: "is_stats_object new_stats_object"
  by (simp add: is_stats_object_def new_stats_object_def stats_keys_def builder_add_def
      allowed_field_def)

lemma new_stats_object_counters:
  "k \<in> set stats_keys \<Longrightarrow> get_field new_stats_object k = Inr (R_NUM 0)"
  by (auto simp: new_stats_object_def stats_keys_def builder_add_def)

lemma new_stats_object_other:
  "k \<notin> set stats_keys \<Longrightarrow> get_field_nothrow new_stats_object k = Inr None"
  by (auto simp: new_stats_object_def stats_keys_def builder_add_def)

lemma stats_merge_onto_new:
  assumes "is_stats_object b"
  shows "\<exists>fs. datum_merge new_stats_object b stats_merge lim cs = Inr (R_OBJECT fs, cs)
           \<and> is_stats_object (R_OBJECT fs)
           \<and> (\<forall>k \<in> set stats_keys. get_field (R_OBJECT fs) k = get_field b k)
           \<and> (\<forall>k. k \<notin> set stats_keys \<longrightarrow> get_field_nothrow b k = Inr None
                 \<longrightarrow> map_of fs k = None)"
proof -
  obtain fa where a: "new_stats_object = R_OBJECT fa" "distinct (map fst fa)" "allowed_map fa"
    using is_stats_object_new by (rule is_stats_objectD)
  from assms obtain fb where b: "b = R_OBJECT fb" "distinct (map fst fb)"
    "\<forall>(k, v) \<in> set fb. allowed_field k v"
    by (rule is_stats_objectD)
  from merge_fields_stats [OF a(3) b(2) b(3), of lim cs] obtain d where
    d: "merge_fields fa fb stats_merge lim cs = Inr (d, cs)"
       "\<forall>k. map_of fb k = None \<longrightarrow> map_of d k = map_of fa k"
    by blast
  have run: "datum_merge new_stats_object b stats_merge lim cs = Inr (R_OBJECT d, cs)"
    using d(1) by (simp add: a(1) b(1))
  from stats_merge_objects [OF is_stats_object_new assms, of lim cs] run
  have so: "is_stats_object (R_OBJECT d)"
    and sums: "\<forall>k \<in> set stats_keys. \<exists>x y. get_field new_stats_object k = Inr (R_NUM x)
                 \<and> get_field b k = Inr (R_NUM y) \<and> get_field (R_OBJECT d) k = Inr (R_NUM (x + y))"
    by auto
  have c: "\<forall>k \<in> set stats_keys. get_field (R_OBJECT d) k = get_field b k"
  proof
    fix k assume k: "k \<in> set stats_keys"
    with sums obtain x y where "get_field new_stats_object k = Inr (R_NUM x)"
      "get_field b k = Inr (R_NUM y)" "get_field (R_OBJECT d) k = Inr (R_NUM (x + y))" by blast
    with new_stats_object_counters [OF k] show "get_field (R_OBJECT d) k = get_field b k" by simp
  qed
  have o: "\<forall>k. k \<notin> set stats_keys \<longrightarrow> get_field_nothrow b k = Inr None \<longrightarrow> map_of d k = None"
    using d(2) new_stats_object_other by (auto simp: a(1) b(1))
  show ?thesis using run so c o by blast
qed

lemma too_many_keys_msg_3_0:
  "too_many_keys_msg (3 + 0) 0 = ''Too many generated keys (3), array truncated to 0.''"
  by (simp add: too_many_keys_msg_def show_nat_digit)

lemma generate_keys_three_empty:
  assumes "array_size_limit lim = 0"
  shows "generate_keys t lim uuids keygen_init [R_OBJECT [], R_OBJECT [], R_OBJECT []] =
          (\<lparr>generated_keys = [], keys_skipped = 3, uuids_drawn = 3\<rparr>,
           [R_OBJECT [(get_pkey t, R_STR (uuids 0))], R_OBJECT [(get_pkey t, R_STR (uuids 1))],
            R_OBJECT [(get_pkey t, R_STR (uuids 2))]],
           [True, True, True])"
  using assms by (simp add: maybe_generate_key_absent keygen_init_def numeral_3_eq_3 numeral_2_eq_2)


text \<open>
  C5, as the code has it. Three empty documents inserted under a limit of 0, pulled
  as one batch, on a table whose engine replies with a statistics object that has
  neither \<open>generated_keys\<close> nor \<open>warnings\<close>: every document gets a key and its flag, the
  request returns, the \<open>skipped\<close> counter of the result is the one the engine reported
  (the skip count of the key generator is not added to it), there is no
  \<open>generated_keys\<close> field, and the warnings are the single message that 3 keys were
  truncated to 0. In general the totals get a \<open>generated_keys\<close> field from the key
  generator exactly when it kept a key.
\<close>

theorem insert_three_empty_limit_0:
  assumes "array_size_limit (limits env) = 0"
    and "as_table v0 = Inr t"
    and "parse_return_changes optarg bt = Inr rc"
    and "parse_conflict_optarg (optarg ''conflict'') = Inr cb"
    and "parse_durability_optarg (optarg ''durability'') = Inr dur"
    and "batched_insert t (engine w)
           [R_OBJECT [(get_pkey t, R_STR (uuid_source env 0))],
            R_OBJECT [(get_pkey t, R_STR (uuid_source env 1))],
            R_OBJECT [(get_pkey t, R_STR (uuid_source env 2))]]
           [True, True, True] cb dur rc = (reply, engine')"
    and "is_stats_object reply"
    and "get_field_nothrow reply ''generated_keys'' = Inr None"
    and "get_field_nothrow reply ''warnings'' = Inr None"
  shows "(\<exists>obj w'. insert_term_eval_impl env optarg bt v0
                     (Arg_sequence b [[R_OBJECT [], R_OBJECT [], R_OBJECT []]]) w = (Inr obj, w')
            \<and> get_field obj ''skipped'' = get_field reply ''skipped''
            \<and> get_field_nothrow obj ''generated_keys'' = Inr None
            \<and> get_field obj ''warnings''
                = Inr (R_ARRAY [R_STR ''Too many generated keys (3), array truncated to 0.'']))
       \<and> (generated_keys kg = [] \<longrightarrow>
            insert_totals lim (stats, conds, kg)
              = (case builder_of stats of Inl e \<Rightarrow> Inl e | Inr o1 \<Rightarrow> add_warnings o1 conds lim))
       \<and> (generated_keys kg \<noteq> [] \<longrightarrow> insert_totals lim (stats, conds, kg) = Inr o2 \<longrightarrow>
            map_of o2 ''generated_keys'' = Some (R_ARRAY (map R_STR (generated_keys kg))))"
proof (intro conjI)
  let ?docs = "[R_OBJECT [(get_pkey t, R_STR (uuid_source env 0))],
            R_OBJECT [(get_pkey t, R_STR (uuid_source env 1))],
            R_OBJECT [(get_pkey t, R_STR (uuid_source env 2))]]"
  let ?kg = "\<lparr>generated_keys = [], keys_skipped = 3, uuids_drawn = 3\<rparr>"
  let ?msg = "''Too many generated keys (3), array truncated to 0.''"
  from stats_merge_onto_new [OF assms(7), of "limits env" "[]"] obtain fs where
    fs: "datum_merge new_stats_object reply stats_merge (limits env) [] = Inr (R_OBJECT fs, [])"
        "is_stats_object (R_OBJECT fs)"
        "\<forall>k \<in> set stats_keys. get_field (R_OBJECT fs) k = get_field reply k"
        "\<forall>k. k \<notin> set stats_keys \<longrightarrow> get_field_nothrow reply k = Inr None \<longrightarrow> map_of fs k = None"
    by blast
  have nogk: "map_of fs ''generated_keys'' = None" and nowarn: "map_of fs ''warnings'' = None"
    using fs(4) assms(8,9) by (simp_all add: stats_keys_def)
  have sk: "get_field (R_OBJECT fs) ''skipped'' = get_field reply ''skipped''"
    using fs(3) by (simp add: stats_keys_def)
  obtain x where x: "map_of fs ''skipped'' = Some x"
    using fs(2) by (auto simp: is_stats_object_def stats_keys_def)
  let ?w1 = "log_event (E_batched_insert ?docs [True, True, True] cb dur rc)
               ((log_event E_next_batch w)\<lparr>engine := engine'\<rparr>)"
  have batch: "insert_batch env t cb dur rc [R_OBJECT [], R_OBJECT [], R_OBJECT []]
                 (new_stats_object, [], keygen_init) (log_event E_next_batch w)
               = (Inr (R_OBJECT fs, [], ?kg), ?w1)"
    using assms(6) fs(1)
    by (simp add: insert_batch_def generate_keys_three_empty [OF assms(1)] Let_def
        del: generate_keys.simps)
  have src: "insert_source env t cb dur rc (Arg_sequence b [[R_OBJECT [], R_OBJECT [], R_OBJECT []]]) w
               = (Inr (R_OBJECT fs, [], ?kg), log_event E_next_batch ?w1)"
    using batch by (simp add: insert_source_def Let_def)
  have tot: "insert_totals (limits env) (R_OBJECT fs, [], ?kg) = Inr fs"
    by (simp add: insert_totals_def)
  have fin: "insert_finish (limits env) (R_OBJECT fs, [], ?kg)
               = Inr (R_OBJECT (fs @ [(''warnings'', R_ARRAY [R_STR ?msg])]))"
    using tot nowarn too_many_keys_msg_3_0 by (simp add: insert_finish_def add_warning_def)
  have run: "insert_term_eval_impl env optarg bt v0
               (Arg_sequence b [[R_OBJECT [], R_OBJECT [], R_OBJECT []]]) w
             = (Inr (R_OBJECT (fs @ [(''warnings'', R_ARRAY [R_STR ?msg])])),
                log_event E_next_batch ?w1)"
    using assms(2-5) src fin by (simp add: insert_term_eval_impl_def)
  have 1: "get_field (R_OBJECT (fs @ [(''warnings'', R_ARRAY [R_STR ?msg])])) ''skipped''
             = get_field reply ''skipped''"
    using sk x by (simp add: map_of_snoc del: map_of_append)
  have 2: "get_field_nothrow (R_OBJECT (fs @ [(''warnings'', R_ARRAY [R_STR ?msg])]))
             ''generated_keys'' = Inr None"
    using nogk by (simp add: map_of_snoc del: map_of_append)
  have 3: "get_field (R_OBJECT (fs @ [(''warnings'', R_ARRAY [R_STR ?msg])])) ''warnings''
             = Inr (R_ARRAY [R_STR ?msg])"
    using nowarn by (simp add: map_of_snoc del: map_of_append)
  show "\<exists>obj w'. insert_term_eval_impl env optarg bt v0
                     (Arg_sequence b [[R_OBJECT [], R_OBJECT [], R_OBJECT []]]) w = (Inr obj, w')
            \<and> get_field obj ''skipped'' = get_field reply ''skipped''
            \<and> get_field_nothrow obj ''generated_keys'' = Inr None
            \<and> get_field obj ''warnings'' = Inr (R_ARRAY [R_STR ?msg])"
    using run 1 2 3 by blast
next
  show "generated_keys kg = [] \<longrightarrow>
            insert_totals lim (stats, conds, kg)
              = (case builder_of stats of Inl e \<Rightarrow> Inl e | Inr o1 \<Rightarrow> add_warnings o1 conds lim)"
    by (simp add: insert_totals_def)
next
  show "generated_keys kg \<noteq> [] \<longrightarrow> insert_totals lim (stats, conds, kg) = Inr o2 \<longrightarrow>
            map_of o2 ''generated_keys'' = Some (R_ARRAY (map R_STR (generated_keys kg)))"
    using insert_totals_generated_keys by blast
qed

theorem insert_three_empty_limit_0_witness:
  "array_size_limit (limits (stub_env 0)) = 0
   \<and> is_stats_object (stub_stats ''inserted'' 3)
   \<and> (\<exists>obj w'. insert_term_eval_impl (stub_env 0) Map.empty 7 (Arg_table 1 stub_table)
                   (Arg_sequence 2 [[R_OBJECT [], R_OBJECT [], R_OBJECT []]]) stub_world
                 = (Inr obj, w')
          \<and> get_field obj ''skipped'' = Inr (R_NUM 0)
          \<and> get_field_nothrow obj ''generated_keys'' = Inr None
          \<and> get_field obj ''warnings''
              = Inr (R_ARRAY [R_STR ''Too many generated keys (3), array truncated to 0.'']))"
proof -
  have h1: "array_size_limit (limits (stub_env 0)) = 0" by (simp add: stub_env_def)
  have h2: "as_table (Arg_table 1 stub_table) = Inr stub_table" by simp
  have h3: "parse_return_changes Map.empty 7 = Inr NO" by (simp add: parse_return_changes_def)
  have h4: "parse_conflict_optarg (Map.empty ''conflict'') = Inr ERROR"
    by (simp add: parse_conflict_optarg_def)
  have h5: "parse_durability_optarg (Map.empty ''durability'') = Inr DURABILITY_REQUIREMENT_DEFAULT"
    by (simp add: parse_durability_optarg_def)
  have h6: "batched_insert stub_table (engine stub_world)
           [R_OBJECT [(get_pkey stub_table, R_STR (uuid_source (stub_env 0) 0))],
            R_OBJECT [(get_pkey stub_table, R_STR (uuid_source (stub_env 0) 1))],
            R_OBJECT [(get_pkey stub_table, R_STR (uuid_source (stub_env 0) 2))]]
           [True, True, True] ERROR DURABILITY_REQUIREMENT_DEFAULT NO
          = (stub_stats ''inserted'' 3, 1)"
    by (simp add: stub_table_def stub_world_def numeral_3_eq_3)
  have h7: "is_stats_object (stub_stats ''inserted'' 3)"
    by (simp add: is_stats_object_def stub_stats_def stats_keys_def allowed_field_def)
  have h8: "get_field_nothrow (stub_stats ''inserted'' 3) ''generated_keys'' = Inr None"
    and h9: "get_field_nothrow (stub_stats ''inserted'' 3) ''warnings'' = Inr None"
    and sk: "get_field (stub_stats ''inserted'' 3) ''skipped'' = Inr (R_NUM 0)"
    by (simp_all add: stub_stats_def stats_keys_def)
  from insert_three_empty_limit_0 [OF h1 h2 h3 h4 h5 h6 h7 h8 h9, of 2 keygen_init
      "\<lparr>array_size_limit = 0\<rparr>" new_stats_object "[]" "[]"]
  show ?thesis using h1 h7 sk by simp
qed

text \<open>
  The claim as stated fails on the \<open>skipped\<close> counter: with an engine that inserts all
  three documents the result has \<open>skipped\<close> 0, not 3.
\<close>

theorem insert_skipped_counterexample:
  "insert_term_eval_impl (stub_env 0) Map.empty 7 (Arg_table 1 stub_table)
      (Arg_sequence 2 [[R_OBJECT [], R_OBJECT [], R_OBJECT []]]) stub_world
   = (Inr (R_OBJECT
        [(''inserted'', R_NUM 3), (''deleted'', R_NUM 0), (''skipped'', R_NUM 0),
         (''replaced'', R_NUM 0), (''unchanged'', R_NUM 0), (''errors'', R_NUM 0),
         (''warnings'', R_ARRAY [R_STR ''Too many generated keys (3), array truncated to 0.''])]),
      \<lparr>engine = 1,
       trace = [E_next_batch,
                E_batched_insert
                  [R_OBJECT [(''id'', R_STR ''k0'')], R_OBJECT [(''id'', R_STR ''k1'')],
                   R_OBJECT [(''id'', R_STR ''k2'')]]
                  [True, True, True] ERROR DURABILITY_REQUIREMENT_DEFAULT NO,
                E_next_batch]\<rparr>)
   \<and> get_field (R_OBJECT
        [(''inserted'', R_NUM 3), (''deleted'', R_NUM 0), (''skipped'', R_NUM 0),
         (''replaced'', R_NUM 0), (''unchanged'', R_NUM 0), (''errors'', R_NUM 0),
         (''warnings'', R_ARRAY [R_STR ''Too many generated keys (3), array truncated to 0.''])])
        ''skipped'' \<noteq> Inr (R_NUM 3)"
  by code_simp

subsection \<open>The counters of the result\<close>

lemma counter_case_iff:
  "(case x of Some (R_NUM n) \<Rightarrow> 0 \<le> n | _ \<Rightarrow> False) = (\<exists>n. x = Some (R_NUM n) \<and> 0 \<le> n)"
  by (auto split: option.splits datum_t.splits)

lemma has_counters_iff: "has_counters d \<longleftrightarrow> (\<exists>fs. d = R_OBJECT fs \<and> counters_in fs)"
  by (cases d) (simp_all add: has_counters_def counters_in_def list_all_iff counter_case_iff)

lemma nonneg_countersD:
  "nonneg_counters (R_OBJECT fs) \<Longrightarrow> (k, R_NUM n) \<in> set fs \<Longrightarrow> k \<in> set stats_keys \<Longrightarrow> 0 \<le> n"
  by (auto simp: nonneg_counters_def list_all_iff)

lemma counters_in_update:
  assumes "counters_in acc" "k \<in> set stats_keys \<longrightarrow> (\<exists>n. v = R_NUM n \<and> 0 \<le> n)"
  shows "counters_in (builder_overwrite acc k v)"
  using assms by (auto simp: counters_in_def)

lemma counters_in_snoc:
  assumes "counters_in acc"
  shows "counters_in (acc @ [(k, v)])"
  using assms by (auto simp: counters_in_def map_of_snoc simp del: map_of_append)

lemma merge_fields_counters:
  assumes "merge_fields acc r stats_merge lim cs = Inr (d, cs')"
    and "counters_in acc"
    and "\<forall>k n. (k, R_NUM n) \<in> set r \<longrightarrow> k \<in> set stats_keys \<longrightarrow> 0 \<le> n"
  shows "counters_in d"
  using assms
proof (induction r arbitrary: acc cs)
  case Nil
  then show ?case by simp
next
  case (Cons p r)
  obtain key v where p: "p = (key, v)" by (cases p)
  have rest: "\<forall>k n. (k, R_NUM n) \<in> set r \<longrightarrow> k \<in> set stats_keys \<longrightarrow> 0 \<le> n"
    using Cons.prems(3) by auto
  show ?case
  proof (cases "map_of acc key")
    case None
    have "merge_fields (acc @ [(key, v)]) r stats_merge lim cs = Inr (d, cs')"
      using Cons.prems(1) None by (simp add: p)
    from Cons.IH [OF this counters_in_snoc [OF Cons.prems(2)] rest] show ?thesis .
  next
    case (Some x)
    from Cons.prems(1) Some obtain m cs1 where
      m: "stats_merge key x v lim cs = Inr (m, cs1)"
      and run: "merge_fields (builder_overwrite acc key m) r stats_merge lim cs1 = Inr (d, cs')"
      by (auto simp: p split: sum.splits)
    have "key \<in> set stats_keys \<longrightarrow> (\<exists>n. m = R_NUM n \<and> 0 \<le> n)"
    proof
      assume k: "key \<in> set stats_keys"
      from Cons.prems(2) k obtain a where "map_of acc key = Some (R_NUM a)" "0 \<le> a"
        unfolding counters_in_def by blast
      with Some have a: "x = R_NUM a" "0 \<le> a" by simp_all
      from m k a obtain b where b: "v = R_NUM b" "m = R_NUM (a + b)"
        by (auto simp: stats_merge_def split: datum_t.splits)
      from Cons.prems(3) k b(1) have "0 \<le> b" by (auto simp: p)
      with a b show "\<exists>n. m = R_NUM n \<and> 0 \<le> n" by simp
    qed
    from Cons.IH [OF run counters_in_update [OF Cons.prems(2) this] rest] show ?thesis .
  qed
qed

lemma datum_merge_counters:
  assumes "datum_merge stats reply stats_merge lim cs = Inr (stats', cs')"
    and "has_counters stats" and "nonneg_counters reply"
  shows "has_counters stats'"
proof -
  from assms(2) obtain fs where fs: "stats = R_OBJECT fs" "counters_in fs"
    by (auto simp: has_counters_iff)
  from assms(1) fs(1) obtain r d where r: "reply = R_OBJECT r"
    and d: "merge_fields fs r stats_merge lim cs = Inr (d, cs')" "stats' = R_OBJECT d"
    by (cases reply) (auto split: sum.splits)
  have "\<forall>k n. (k, R_NUM n) \<in> set r \<longrightarrow> k \<in> set stats_keys \<longrightarrow> 0 \<le> n"
    using assms(3) r nonneg_countersD by blast
  from merge_fields_counters [OF d(1) fs(2) this] d(2) show ?thesis
    by (auto simp: has_counters_iff)
qed

lemma has_counters_new: "has_counters new_stats_object"
  by (simp add: has_counters_def new_stats_object_def stats_keys_def builder_add_def)


lemma insert_batch_counters:
  assumes "insert_batch env t cb dur rc datums (stats, conds, kg) w = (Inr (stats', conds', kg'), w')"
    and "has_counters stats"
    and "\<forall>e ds fl. nonneg_counters (fst (batched_insert t e ds fl cb dur rc))"
  shows "has_counters stats'"
proof -
  obtain kg1 ds1 fl1 where g: "generate_keys t (limits env) (uuid_source env) kg datums = (kg1, ds1, fl1)"
    by (cases "generate_keys t (limits env) (uuid_source env) kg datums")
  obtain reply e1 where r: "batched_insert t (engine w) ds1 fl1 cb dur rc = (reply, e1)"
    by (cases "batched_insert t (engine w) ds1 fl1 cb dur rc")
  have nn: "nonneg_counters reply"
    using assms(3) [rule_format, of "engine w" ds1 fl1] r by simp
  have "datum_merge stats reply stats_merge (limits env) conds = Inr (stats', conds')"
    using assms(1) g r by (auto simp: insert_batch_def Let_def split: sum.splits)
  from datum_merge_counters [OF this assms(2) nn] show ?thesis .
qed

lemma insert_loop_counters:
  assumes "insert_loop env t cb dur rc ds (stats, conds, kg) w = (Inr (stats', conds', kg'), w')"
    and "has_counters stats"
    and "\<forall>e ds fl. nonneg_counters (fst (batched_insert t e ds fl cb dur rc))"
  shows "has_counters stats'"
  using assms(1,2)
proof (induction ds arbitrary: stats conds kg w)
  case Nil
  then show ?case by simp
next
  case (Cons datums rest)
  show ?case
  proof (cases "datums = []")
    case True
    then show ?thesis using Cons.prems by simp
  next
    case False
    let ?w1 = "log_event E_next_batch w"
    obtain r w1 where b: "insert_batch env t cb dur rc datums (stats, conds, kg) ?w1 = (r, w1)"
      by (cases "insert_batch env t cb dur rc datums (stats, conds, kg) ?w1")
    show ?thesis
    proof (cases r)
      case (Inl e)
      then show ?thesis using Cons.prems(1) False b by simp
    next
      case (Inr acc1)
      obtain s1 c1 kg1 where acc1: "acc1 = (s1, c1, kg1)" by (cases acc1)
      have h1: "has_counters s1"
        using insert_batch_counters [OF b [unfolded Inr acc1] Cons.prems(2) assms(3)] .
      have "insert_loop env t cb dur rc rest (s1, c1, kg1) w1 = (Inr (stats', conds', kg'), w')"
        using Cons.prems(1) False b Inr acc1 by simp
      from Cons.IH [OF this h1] show ?thesis .
    qed
  qed
qed

lemma insert_source_counters:
  assumes "insert_source env t cb dur rc v1 w = (Inr (stats, conds, kg), w')"
    and "\<forall>e ds fl. nonneg_counters (fst (batched_insert t e ds fl cb dur rc))"
  shows "has_counters stats"
  using assms(1) insert_batch_counters [OF _ has_counters_new assms(2)]
    insert_loop_counters [OF _ has_counters_new assms(2)]
  by (auto simp: insert_source_def Let_def split: option.splits sum.splits if_splits)

lemma add_warnings_counters:
  assumes "add_warnings obj msgs lim = Inr obj'" "counters_in obj"
  shows "counters_in obj'"
proof -
  have "\<forall>k \<in> set stats_keys. map_of obj' k = map_of obj k"
    using add_warnings_other [OF assms(1)] by (auto simp: stats_keys_def)
  then show ?thesis using assms(2) by (simp add: counters_in_def)
qed

lemma add_warning_counters:
  assumes "add_warning obj msg lim = Inr obj'" "counters_in obj"
  shows "counters_in obj'"
proof -
  have "\<forall>k \<in> set stats_keys. map_of obj' k = map_of obj k"
    using add_warning_effect(3) [OF assms(1)] by (auto simp: stats_keys_def)
  then show ?thesis using assms(2) by (simp add: counters_in_def)
qed

lemma insert_totals_counters:
  assumes "insert_totals lim (stats, conds, kg) = Inr obj" "has_counters stats"
  shows "counters_in obj"
proof (cases "generated_keys kg = []")
  case True
  then show ?thesis
    using assms add_warnings_counters
    by (auto simp: insert_totals_def has_counters_iff split: sum.splits)
next
  case False
  from assms(1) False obtain stats' conds' where
    m: "datum_merge stats (R_OBJECT (snd (builder_add [] ''generated_keys''
              (R_ARRAY (map R_STR (generated_keys kg)))))) pure_merge lim conds = Inr (stats', conds')"
    by (auto simp: insert_totals_def split: sum.splits)
  from fold_generated_keys [OF m] obtain fs where
    fs: "stats = R_OBJECT fs"
        "stats' = R_OBJECT (fs @ [(''generated_keys'', R_ARRAY (map R_STR (generated_keys kg)))])"
    by blast
  have c: "counters_in (fs @ [(''generated_keys'', R_ARRAY (map R_STR (generated_keys kg)))])"
    using assms(2) fs(1) counters_in_snoc by (simp add: has_counters_iff)
  have "add_warnings (fs @ [(''generated_keys'', R_ARRAY (map R_STR (generated_keys kg)))]) conds' lim
          = Inr obj"
    using assms(1) False m fs(2) by (simp add: insert_totals_def)
  from add_warnings_counters [OF this c] show ?thesis .
qed

lemma insert_finish_counters:
  assumes "insert_finish lim (stats, conds, kg) = Inr obj" "has_counters stats"
  shows "has_counters obj"
proof -
  from assms(1) obtain obj1 obj2 where
    tot: "insert_totals lim (stats, conds, kg) = Inr obj1"
    and last: "(if keys_skipped kg > 0
                then add_warning obj1
                       (too_many_keys_msg (unat (keys_skipped kg + of_nat (length (generated_keys kg))))
                          (length (generated_keys kg))) lim
                else Inr obj1) = Inr obj2"
    and obj: "obj = R_OBJECT obj2"
    by (auto simp: insert_finish_def split: sum.splits)
  have "counters_in obj1" using insert_totals_counters [OF tot assms(2)] .
  then have "counters_in obj2"
    using last add_warning_counters by (auto split: if_splits)
  then show ?thesis using obj by (simp add: has_counters_iff)
qed

lemma replace_batch_counters:
  assumes "replace_batch env tbl f n dur rc vals (stats, conds) w = (Inr (stats', conds'), w')"
    and "has_counters stats"
    and "\<forall>e vs ks. nonneg_counters (fst (batched_replace tbl e vs ks f n dur rc))"
  shows "has_counters stats'"
proof -
  from assms(1) obtain ks reply e1 where
    r: "batched_replace tbl (engine w) vals ks f n dur rc = (reply, e1)"
    and m: "datum_merge stats reply stats_merge (limits env) conds = Inr (stats', conds')"
    by (auto simp: replace_batch_def Let_def split: sum.splits prod.splits if_splits)
  have nn: "nonneg_counters reply"
    using assms(3) [rule_format, of "engine w" vals ks] r by simp
  from datum_merge_counters [OF m assms(2) nn] show ?thesis .
qed

lemma replace_loop_counters:
  assumes "replace_loop env tbl f n dur rc ts ds (stats, conds) w = (Inr (stats', conds'), w')"
    and "has_counters stats"
    and "\<forall>e vs ks. nonneg_counters (fst (batched_replace tbl e vs ks f n dur rc))"
  shows "has_counters stats'"
  using assms(1,2)
proof (induction ds arbitrary: stats conds w)
  case Nil
  then show ?case by simp
next
  case (Cons batch rest)
  let ?w1 = "log_event E_next_batch w"
  from Cons.prems(1) obtain vals where v: "fst (next_batch ts (batch # rest)) = Inr vals"
    by (auto split: sum.splits)
  show ?case
  proof (cases "vals = []")
    case True
    then show ?thesis using Cons.prems v by simp
  next
    case False
    obtain r w1 where b: "replace_batch env tbl f n dur rc vals (stats, conds) ?w1 = (r, w1)"
      by (cases "replace_batch env tbl f n dur rc vals (stats, conds) ?w1")
    show ?thesis
    proof (cases r)
      case (Inl e)
      then show ?thesis using Cons.prems(1) v False b by simp
    next
      case (Inr acc1)
      obtain s1 c1 where acc1: "acc1 = (s1, c1)" by (cases acc1)
      have h1: "has_counters s1"
        using replace_batch_counters [OF b [unfolded Inr acc1] Cons.prems(2) assms(3)] .
      have "replace_loop env tbl f n dur rc ts rest (s1, c1) w1 = (Inr (stats', conds'), w')"
        using Cons.prems(1) v False b Inr acc1 by simp
      from Cons.IH [OF this h1] show ?thesis .
    qed
  qed
qed

lemma finish_stats_counters:
  assumes "finish_stats lim (stats, conds) = Inr obj" "has_counters stats"
  shows "has_counters obj"
  using assms add_warnings_counters
  by (auto simp: finish_stats_def has_counters_iff split: sum.splits)


lemma replace_target_counters:
  assumes "replace_target env f n dur rc v0 w = (Inr (stats, conds), w')"
    and "\<forall>b tbl ds. v0 = Arg_selection b tbl ds \<longrightarrow>
           (\<forall>e vs ks. nonneg_counters (fst (batched_replace tbl e vs ks f n dur rc)))"
    and "\<forall>b sel. v0 = Arg_single_selection b sel \<longrightarrow>
           (\<forall>e. nonneg_counters (fst (sel_replace sel e f n dur rc)))"
  shows "has_counters stats"
proof (cases v0)
  case (Arg_single_selection b sel)
  obtain reply e1 where r: "sel_replace sel (engine w) f n dur rc = (reply, e1)"
    by (cases "sel_replace sel (engine w) f n dur rc")
  have nn: "nonneg_counters reply"
    using assms(3) Arg_single_selection r by (metis fst_conv)
  have "datum_merge new_stats_object reply stats_merge (limits env) [] = Inr (stats, conds)"
    using assms(1) Arg_single_selection r
    by (auto simp: replace_target_def Let_def split: sum.splits)
  from datum_merge_counters [OF this has_counters_new nn] show ?thesis .
next
  case (Arg_selection b tbl ds)
  have nn: "\<forall>e vs ks. nonneg_counters (fst (batched_replace tbl e vs ks f n dur rc))"
    using assms(2) Arg_selection by blast
  show ?thesis
    using assms(1) Arg_selection replace_loop_counters [OF _ has_counters_new nn]
    by (auto simp: replace_target_def Let_def split: if_splits)
qed (use assms(1) in \<open>auto simp: replace_target_def Let_def\<close>)

text \<open>
  C10. With a table engine that reports no negative count, every insert and every
  replace that returns, returns an object with all six counters, each at least 0; on
  an empty source they return the fresh statistics object, whose six counters are 0.
  A foreach over an empty stream returns the empty object, which has no field at all.
\<close>

theorem stats_counters_present:
  "((\<forall>e ds fl cb dur rc. nonneg_counters (fst (batched_insert t e ds fl cb dur rc)))
      \<and> as_table v0 = Inr t
      \<and> insert_term_eval_impl env optarg bt v0 v1 w = (Inr obj, w')
     \<longrightarrow> has_counters obj)
   \<and> ((\<forall>b tbl ds. u0 = Arg_selection b tbl ds \<longrightarrow>
          (\<forall>e vs ks g n dur rc. nonneg_counters (fst (batched_replace tbl e vs ks g n dur rc))))
      \<and> (\<forall>b sel. u0 = Arg_single_selection b sel \<longrightarrow>
          (\<forall>e g n dur rc. nonneg_counters (fst (sel_replace sel e g n dur rc))))
      \<and> replace_term_eval_impl env optarg bt a1det u0 u1 w = (Inr obj, w')
     \<longrightarrow> has_counters obj)
   \<and> (as_table v0 = Inr t \<and> parse_return_changes optarg bt = Inr rc
      \<and> parse_conflict_optarg (optarg ''conflict'') = Inr cb
      \<and> parse_durability_optarg (optarg ''durability'') = Inr dur
     \<longrightarrow> insert_term_eval_impl env optarg bt v0 (Arg_sequence b []) w
           = (Inr new_stats_object, log_event E_next_batch w))
   \<and> ((case optarg ''non_atomic'' of None \<Rightarrow> Inr False | Some v \<Rightarrow> as_bool v) = Inr n
      \<and> parse_return_changes optarg bt = Inr rc
      \<and> parse_durability_optarg (optarg ''durability'') = Inr dur
      \<and> as_func u1 = Inr f \<and> (n \<or> (a1det \<and> is_deterministic f))
     \<longrightarrow> fst (replace_term_eval_impl env optarg bt a1det (Arg_selection b tbl []) u1 w)
           = Inr new_stats_object)
   \<and> (\<forall>k \<in> set stats_keys. get_field new_stats_object k = Inr (R_NUM 0))
   \<and> (as_func u1 = Inr f
     \<longrightarrow> foreach_term_eval_impl env (Arg_sequence b []) u1 w
           = (Inr (R_OBJECT []), log_event E_next w))
   \<and> (\<forall>k. get_field_nothrow (R_OBJECT []) k = Inr None)"
proof (intro conjI impI)
  assume a: "(\<forall>e ds fl cb dur rc. nonneg_counters (fst (batched_insert t e ds fl cb dur rc)))
      \<and> as_table v0 = Inr t
      \<and> insert_term_eval_impl env optarg bt v0 v1 w = (Inr obj, w')"
  then obtain cb dur rc stats conds kg where
    src: "insert_source env t cb dur rc v1 w = (Inr (stats, conds, kg), w')"
    and fin: "insert_finish (limits env) (stats, conds, kg) = Inr obj"
    by (auto simp: insert_term_eval_impl_def split: sum.splits prod.splits)
  have "\<forall>e ds fl. nonneg_counters (fst (batched_insert t e ds fl cb dur rc))"
    using a by blast
  from insert_finish_counters [OF fin insert_source_counters [OF src this]]
  show "has_counters obj" .
next
  assume a: "(\<forall>b tbl ds. u0 = Arg_selection b tbl ds \<longrightarrow>
          (\<forall>e vs ks g n dur rc. nonneg_counters (fst (batched_replace tbl e vs ks g n dur rc))))
      \<and> (\<forall>b sel. u0 = Arg_single_selection b sel \<longrightarrow>
          (\<forall>e g n dur rc. nonneg_counters (fst (sel_replace sel e g n dur rc))))
      \<and> replace_term_eval_impl env optarg bt a1det u0 u1 w = (Inr obj, w')"
  then obtain g n dur rc stats conds where
    tgt: "replace_target env g n dur rc u0 w = (Inr (stats, conds), w')"
    and fin: "finish_stats (limits env) (stats, conds) = Inr obj"
    by (auto simp: replace_term_eval_impl_def split: sum.splits prod.splits if_splits)
  have 1: "\<forall>b tbl ds. u0 = Arg_selection b tbl ds \<longrightarrow>
           (\<forall>e vs ks. nonneg_counters (fst (batched_replace tbl e vs ks g n dur rc)))"
    using a by blast
  have 2: "\<forall>b sel. u0 = Arg_single_selection b sel \<longrightarrow>
           (\<forall>e. nonneg_counters (fst (sel_replace sel e g n dur rc)))"
    using a by blast
  from finish_stats_counters [OF fin replace_target_counters [OF tgt 1 2]]
  show "has_counters obj" .
next
  assume "as_table v0 = Inr t \<and> parse_return_changes optarg bt = Inr rc
      \<and> parse_conflict_optarg (optarg ''conflict'') = Inr cb
      \<and> parse_durability_optarg (optarg ''durability'') = Inr dur"
  then show "insert_term_eval_impl env optarg bt v0 (Arg_sequence b []) w
           = (Inr new_stats_object, log_event E_next_batch w)"
    by (simp add: insert_term_eval_impl_def insert_source_def insert_finish_def insert_totals_def
        keygen_init_def new_stats_object_def Let_def)
next
  assume "(case optarg ''non_atomic'' of None \<Rightarrow> Inr False | Some v \<Rightarrow> as_bool v) = Inr n
      \<and> parse_return_changes optarg bt = Inr rc
      \<and> parse_durability_optarg (optarg ''durability'') = Inr dur
      \<and> as_func u1 = Inr f \<and> (n \<or> (a1det \<and> is_deterministic f))"
  then show "fst (replace_term_eval_impl env optarg bt a1det (Arg_selection b tbl []) u1 w)
           = Inr new_stats_object"
    by (auto simp: replace_term_eval_impl_def replace_target_def finish_stats_def
        new_stats_object_def Let_def)
next
  show "\<forall>k \<in> set stats_keys. get_field new_stats_object k = Inr (R_NUM 0)"
    using new_stats_object_counters by blast
next
  assume "as_func u1 = Inr f"
  then show "foreach_term_eval_impl env (Arg_sequence b []) u1 w
           = (Inr (R_OBJECT []), log_event E_next w)"
    by (simp add: foreach_term_eval_impl_def foreach_loop_def finish_stats_def)
next
  show "\<forall>k. get_field_nothrow (R_OBJECT []) k = Inr None" by simp
qed


lemma replace_run_selection:
  "replace_term_eval_impl (stub_env 10) Map.empty 7 True
      (Arg_single_selection 1 stub_selection) (Arg_func 2 det_func) stub_world
   = (Inr (R_OBJECT
        [(''inserted'', R_NUM 0), (''deleted'', R_NUM 0), (''skipped'', R_NUM 0),
         (''replaced'', R_NUM 1), (''unchanged'', R_NUM 0), (''errors'', R_NUM 0)]),
      \<lparr>engine = 1, trace = [E_replace False DURABILITY_REQUIREMENT_DEFAULT NO]\<rparr>)"
  by code_simp

lemma nonneg_counters_stub: "nonneg_counters (stub_stats c n)"
  by (simp add: nonneg_counters_def stub_stats_def stats_keys_def)

theorem stats_counters_present_witness:
  "has_counters (R_OBJECT
        [(''inserted'', R_NUM 4), (''deleted'', R_NUM 0), (''skipped'', R_NUM 0),
         (''replaced'', R_NUM 0), (''unchanged'', R_NUM 0), (''errors'', R_NUM 0),
         (''generated_keys'', R_ARRAY [R_STR ''k0'', R_STR ''k1'']),
         (''warnings'', R_ARRAY [R_STR ''Too many generated keys (3), array truncated to 2.''])])
   \<and> has_counters (R_OBJECT
        [(''inserted'', R_NUM 0), (''deleted'', R_NUM 0), (''skipped'', R_NUM 0),
         (''replaced'', R_NUM 1), (''unchanged'', R_NUM 0), (''errors'', R_NUM 0)])
   \<and> insert_term_eval_impl (stub_env 10) Map.empty 7 (Arg_table 1 stub_table)
        (Arg_sequence 2 []) stub_world
      = (Inr new_stats_object, log_event E_next_batch stub_world)
   \<and> fst (replace_term_eval_impl (stub_env 10) Map.empty 7 True (Arg_selection 1 stub_table [])
             (Arg_func 2 det_func) stub_world)
      = Inr new_stats_object
   \<and> foreach_term_eval_impl (stub_env 10) (Arg_sequence 2 []) (Arg_func 2 det_func) stub_world
      = (Inr (R_OBJECT []), log_event E_next stub_world)"
proof -
  have nn: "\<forall>e ds fl cb dur rc. nonneg_counters (fst (batched_insert stub_table e ds fl cb dur rc))"
    by (simp add: stub_table_def nonneg_counters_stub)
  have ns: "\<forall>b sel. Arg_single_selection 1 stub_selection = Arg_single_selection b sel \<longrightarrow>
          (\<forall>e g n dur rc. nonneg_counters (fst (sel_replace sel e g n dur rc)))"
    by (simp add: stub_selection_def nonneg_counters_stub)
  have nr: "\<forall>b tbl ds. (Arg_single_selection 1 stub_selection :: nat arg_t) = Arg_selection b tbl ds \<longrightarrow>
          (\<forall>e vs ks g n dur rc. nonneg_counters (fst (batched_replace tbl e vs ks g n dur rc)))"
    by simp
  have tb: "as_table (Arg_table 1 stub_table) = Inr stub_table" by simp
  have rc: "parse_return_changes Map.empty 7 = Inr NO" by (simp add: parse_return_changes_def)
  have cb: "parse_conflict_optarg (Map.empty ''conflict'') = Inr ERROR"
    by (simp add: parse_conflict_optarg_def)
  have dur: "parse_durability_optarg (Map.empty ''durability'') = Inr DURABILITY_REQUIREMENT_DEFAULT"
    by (simp add: parse_durability_optarg_def)
  have na: "(case Map.empty ''non_atomic'' of None \<Rightarrow> Inr False | Some v \<Rightarrow> as_bool v) = Inr False"
    by simp
  have fn: "as_func (Arg_func 2 det_func) = Inr det_func" by simp
  have det: "False \<or> (True \<and> is_deterministic det_func)" by (simp add: det_func_def)
  note T1 = stats_counters_present [where t = stub_table and ?v0.0 = "Arg_table 1 stub_table"
      and env = "stub_env 2" and optarg = Map.empty and bt = 7 and w = stub_world,
      THEN conjunct1, rule_format, OF conjI [OF nn conjI [OF tb insert_run_limit_2]]]
  note T2 = stats_counters_present [where ?u0.0 = "Arg_single_selection 1 stub_selection"
      and env = "stub_env 10" and optarg = Map.empty and bt = 7 and w = stub_world
      and a1det = True and ?u1.0 = "Arg_func 2 det_func",
      THEN conjunct2, THEN conjunct1, rule_format, OF conjI [OF nr conjI [OF ns replace_run_selection]]]
  note T3 = stats_counters_present [where t = stub_table and ?v0.0 = "Arg_table 1 stub_table"
      and env = "stub_env 10" and optarg = Map.empty and bt = 7 and w = stub_world
      and rc = NO and cb = ERROR and dur = DURABILITY_REQUIREMENT_DEFAULT and b = 2,
      THEN conjunct2, THEN conjunct2, THEN conjunct1, rule_format,
      OF conjI [OF tb conjI [OF rc conjI [OF cb dur]]]]
  note T4 = stats_counters_present [where env = "stub_env 10" and optarg = Map.empty and bt = 7
      and w = stub_world and rc = NO and dur = DURABILITY_REQUIREMENT_DEFAULT and b = 1
      and n = False and a1det = True and ?u1.0 = "Arg_func 2 det_func" and f = det_func
      and tbl = stub_table,
      THEN conjunct2, THEN conjunct2, THEN conjunct2, THEN conjunct1, rule_format,
      OF conjI [OF na conjI [OF rc conjI [OF dur conjI [OF fn det]]]]]
  note T5 = stats_counters_present [where env = "stub_env 10" and w = stub_world and b = 2
      and ?u1.0 = "Arg_func 2 det_func" and f = det_func,
      THEN conjunct2, THEN conjunct2, THEN conjunct2, THEN conjunct2, THEN conjunct2,
      THEN conjunct1, rule_format, OF fn]
  show ?thesis using T1 T2 T3 T4 T5 by simp
qed

end
